theory Spec2Isabelle
  imports Main "HOL-Library.Word"
begin

section \<open>Data model of random-access-filesystem.js\<close>

text \<open>
  The module keeps many logical files under one directory while holding at most
  \<open>maxOpenFiles\<close> descriptors open. A \<open>PathWorker\<close> is the state machine of one
  file, a \<open>PathInterface\<close> is the handle given to clients, and the
  \<open>RandomAccessFilesystem\<close> object schedules opening and closing through \<open>pull\<close>.
  The embedding follows the variant whose scheduler is the \<open>pull\<close> loop over a
  schedule queue.

  JavaScript objects have identity: a worker is named by the index at which its
  constructor ran, and the record of all workers is the store \<open>workers\<close>.
\<close>

type_synonym byte = "8 word"

datatype control = Start | Stop

datatype wstate = Closed | Opening | Opened | Draining | Closing

datatype js_error =
    AssertionError
  | OsError nat
  | CouldNotSatisfyLength
  | TypeError

text \<open>
  An op is the tuple \<open>[type, offset, sizeOrData, cb]\<close>. \<open>PathInterface.read\<close>
  builds it with type \<open>'read'\<close> and a size, \<open>PathInterface.write\<close> with type
  \<open>'write'\<close> and a buffer. The client's completion function is named by a number.
\<close>

datatype op =
    ReadOp int int nat
  | WriteOp int "byte list" nat

text \<open>
  The two closures \<open>pull\<close> hands to a worker:
  \<open>() => { this.stoppableQueue.push(pathWorker); this.pull() }\<close> and
  \<open>() => { this.numActivePathWorkers -= 1; this.pull() }\<close>.
\<close>

datatype start_closure = StartedCb nat

datatype stop_closure = StoppedCb

text \<open>
  Requests handed to the operating system, each with the worker whose closure
  receives the completion: \<open>mkdirp\<close>, \<open>FS.open\<close>, \<open>FS.close fd\<close>,
  \<open>FS.read fd buffer 0 length position\<close> and \<open>FS.write fd data 0 length position\<close>.
\<close>

datatype io_req =
    Mkdirp nat
  | FsOpen nat
  | FsClose nat nat
  | FsRead nat nat int int nat
  | FsWrite nat nat "byte list" int nat

record PathWorker =
  fullPath :: string
  fullDirMade :: bool
  control :: control
  state :: wstate
  fd :: nat
  ops :: "op list"
  inFlightReads :: int
  inFlightWrites :: int
  startCb :: "start_closure option"
  stopCb :: "stop_closure option"

text \<open>
  A value found under a key of the \<open>pathInterfaces\<close> object: a \<open>PathInterface\<close>
  (named by the worker it holds), or a property that the object literal \<open>{}\<close>
  inherits from \<open>Object.prototype\<close>.
\<close>

datatype jsval = Undefined | Interface nat | Inherited string

text \<open>
  What a client's completion function receives: \<open>cb(err, data)\<close> for a read,
  \<open>cb(err)\<close> for a write.
\<close>

datatype delivery =
    ReadResult "js_error option" "byte list option"
  | WriteResult "js_error option"

text \<open>
  The scheduler object together with the store of workers and the environment:
  \<open>created\<close> lists the short paths for which \<open>storageFor\<close> constructed a
  worker and its interface (position = identity), \<open>pending\<close> the operating-system
  requests whose completion has not run yet, \<open>oslog\<close> every request in the order
  it was issued, \<open>submitted\<close> every op in the order \<open>add\<close> received it, and
  \<open>delivered\<close> the calls of client completion functions in order.
\<close>

record sys =
  dirPath :: string
  maxOpenFiles :: nat
  pathInterfaces :: "string \<rightharpoonup> jsval"
  numActivePathWorkers :: int
  stoppableQueue :: "nat list"
  scheduleQueue :: "nat list"
  workers :: "nat \<Rightarrow> PathWorker"
  created :: "string list"
  pending :: "io_req list"
  oslog :: "io_req list"
  submitted :: "(nat \<times> op) list"
  delivered :: "(nat \<times> delivery) list"

text \<open>
  A call returns, throws (the state is the one at the throw), or the model runs
  out of fuel.
\<close>

datatype 'a outcome = Done 'a | Threw js_error 'a | OutOfFuel

definition and_then :: "sys outcome \<Rightarrow> (sys \<Rightarrow> sys outcome) \<Rightarrow> sys outcome" where
  "and_then m f = (case m of Done s \<Rightarrow> f s | Threw e s \<Rightarrow> Threw e s | OutOfFuel \<Rightarrow> OutOfFuel)"

definition upd :: "nat \<Rightarrow> (PathWorker \<Rightarrow> PathWorker) \<Rightarrow> sys \<Rightarrow> sys" where
  "upd w f s = s\<lparr>workers := (workers s)(w := f (workers s w))\<rparr>"

definition issue :: "io_req \<Rightarrow> sys \<Rightarrow> sys" where
  "issue r s = s\<lparr>pending := pending s @ [r], oslog := oslog s @ [r]\<rparr>"

section \<open>PathWorker\<close>

definition new_worker :: "string \<Rightarrow> PathWorker" where
  "new_worker p =
     \<lparr>fullPath = p, fullDirMade = False, control = Stop, state = Closed, fd = 0,
      ops = [], inFlightReads = 0, inFlightWrites = 0, startCb = None, stopCb = None\<rparr>"

text \<open>
  \<open>execIfOps\<close>: the loop \<open>while (!this.ops.isEmpty())\<close>. The list argument is the
  content of \<open>this.ops\<close>; each round asserts the state, shifts one op and hands
  it to the operating system.
\<close>

fun execLoop :: "nat \<Rightarrow> op list \<Rightarrow> sys \<Rightarrow> sys outcome" where
  "execLoop w [] s = Done s"
| "execLoop w (x # rest) s =
     (if state (workers s w) \<noteq> Opened \<and> state (workers s w) \<noteq> Draining
      then Threw AssertionError s
      else
        let s1 = upd w (\<lambda>p. p\<lparr>ops := rest\<rparr>) s in
        (case x of
           ReadOp offset readSize cb \<Rightarrow>
             let s2 = upd w (\<lambda>p. p\<lparr>inFlightReads := inFlightReads p + 1\<rparr>) s1 in
             if \<not> readSize > 0 then Threw AssertionError s2
             else execLoop w rest
                    (issue (FsRead w (fd (workers s2 w)) readSize offset cb) s2)
         | WriteOp offset writeData cb \<Rightarrow>
             let s2 = upd w (\<lambda>p. p\<lparr>inFlightWrites := inFlightWrites p + 1\<rparr>) s1 in
             execLoop w rest
               (issue (FsWrite w (fd (workers s2 w)) writeData offset cb) s2)))"

definition execIfOps :: "nat \<Rightarrow> sys \<Rightarrow> sys outcome" where
  "execIfOps w s = execLoop w (ops (workers s w)) s"

definition open_file :: "nat \<Rightarrow> sys \<Rightarrow> sys outcome" where
  "open_file w s =
     (if state (workers s w) \<noteq> Closed then Threw AssertionError s
      else
        let s1 = upd w (\<lambda>p. p\<lparr>state := Opening\<rparr>) s in
        if fullDirMade (workers s1 w) then Done (issue (FsOpen w) s1)
        else Done (issue (Mkdirp w) s1))"

definition closeIfDrained :: "nat \<Rightarrow> sys \<Rightarrow> sys outcome" where
  "closeIfDrained w s =
     (if state (workers s w) \<noteq> Opened \<and> state (workers s w) \<noteq> Draining
      then Threw AssertionError s
      else if inFlightReads (workers s w) = 0 \<and> inFlightWrites (workers s w) = 0
      then Done (issue (FsClose w (fd (workers s w))) (upd w (\<lambda>p. p\<lparr>state := Closing\<rparr>) s))
      else Done s)"

text \<open>
  Running one of the scheduler's closures; \<open>pull'\<close> is the \<open>pull\<close> it re-enters.
\<close>

fun run_startCb :: "(sys \<Rightarrow> sys outcome) \<Rightarrow> start_closure \<Rightarrow> sys \<Rightarrow> sys outcome" where
  "run_startCb pull' (StartedCb v) s = pull' (s\<lparr>stoppableQueue := stoppableQueue s @ [v]\<rparr>)"

fun run_stopCb :: "(sys \<Rightarrow> sys outcome) \<Rightarrow> stop_closure \<Rightarrow> sys \<Rightarrow> sys outcome" where
  "run_stopCb pull' StoppedCb s =
     pull' (s\<lparr>numActivePathWorkers := numActivePathWorkers s - 1\<rparr>)"

text \<open>
  \<open>tick\<close>, with its own recursive calls as \<open>tick'\<close> and the scheduler's \<open>pull\<close>
  as \<open>pull'\<close>. The outer switch is on \<open>control\<close>, the inner one on \<open>state\<close>.
\<close>

definition tick_body ::
  "(nat \<Rightarrow> sys \<Rightarrow> sys outcome) \<Rightarrow> (sys \<Rightarrow> sys outcome) \<Rightarrow> nat \<Rightarrow> sys \<Rightarrow> sys outcome" where
  "tick_body tick' pull' w s =
     (case control (workers s w) of
        Start \<Rightarrow>
          (case state (workers s w) of
             Opening \<Rightarrow> Done s
           | Opened \<Rightarrow>
               and_then (execIfOps w s) (\<lambda>s1.
                 case startCb (workers s1 w) of
                   None \<Rightarrow> Done s1
                 | Some cb \<Rightarrow>
                     and_then (run_startCb pull' cb s1) (\<lambda>s2.
                       Done (upd w (\<lambda>p. p\<lparr>startCb := None\<rparr>) s2)))
           | Draining \<Rightarrow> tick' w (upd w (\<lambda>p. p\<lparr>state := Opened\<rparr>) s)
           | Closing \<Rightarrow> Done s
           | Closed \<Rightarrow> open_file w s)
      | Stop \<Rightarrow>
          (case state (workers s w) of
             Opening \<Rightarrow> Done s
           | Opened \<Rightarrow>
               and_then (execIfOps w s) (\<lambda>s1.
                 tick' w (upd w (\<lambda>p. p\<lparr>state := Draining\<rparr>) s1))
           | Draining \<Rightarrow> closeIfDrained w s
           | Closing \<Rightarrow> Done s
           | Closed \<Rightarrow>
               (case stopCb (workers s w) of
                  None \<Rightarrow> Done s
                | Some cb \<Rightarrow>
                    and_then (run_stopCb pull' cb s) (\<lambda>s2.
                      Done (upd w (\<lambda>p. p\<lparr>stopCb := None\<rparr>) s2)))))"

text \<open>\<open>this.ops.push(op)\<close>, and the record of the submission.\<close>

definition push_op :: "nat \<Rightarrow> op \<Rightarrow> sys \<Rightarrow> sys" where
  "push_op w x s =
     upd w (\<lambda>p. p\<lparr>ops := ops p @ [x]\<rparr>) (s\<lparr>submitted := submitted s @ [(w, x)]\<rparr>)"

definition add :: "(nat \<Rightarrow> sys \<Rightarrow> sys outcome) \<Rightarrow> nat \<Rightarrow> op \<Rightarrow> sys \<Rightarrow> sys outcome" where
  "add tick' w x s = tick' w (push_op w x s)"

definition start ::
  "(nat \<Rightarrow> sys \<Rightarrow> sys outcome) \<Rightarrow> nat \<Rightarrow> start_closure option \<Rightarrow> sys \<Rightarrow> sys outcome" where
  "start tick' w cb s =
     (let s1 = upd w (\<lambda>p. p\<lparr>control := Start\<rparr>) s in
      case cb of
        None \<Rightarrow> tick' w s1
      | Some c \<Rightarrow>
          if startCb (workers s1 w) \<noteq> None then Threw AssertionError s1
          else tick' w (upd w (\<lambda>p. p\<lparr>startCb := Some c\<rparr>) s1))"

definition stop ::
  "(nat \<Rightarrow> sys \<Rightarrow> sys outcome) \<Rightarrow> nat \<Rightarrow> stop_closure \<Rightarrow> sys \<Rightarrow> sys outcome" where
  "stop tick' w cb s =
     (let s1 = upd w (\<lambda>p. p\<lparr>control := Stop\<rparr>) s in
      if stopCb (workers s1 w) \<noteq> None then Threw AssertionError s1
      else tick' w (upd w (\<lambda>p. p\<lparr>stopCb := Some cb\<rparr>) s1))"

section \<open>RandomAccessFilesystem\<close>

definition fdHeadroom :: "sys \<Rightarrow> bool" where
  "fdHeadroom s = (numActivePathWorkers s < int (maxOpenFiles s))"

text \<open>The two \<open>return\<close>s at the head of the loop of \<open>pull\<close>.\<close>

definition pull_returns :: "sys \<Rightarrow> bool" where
  "pull_returns s = (scheduleQueue s = [] \<or> (\<not> fdHeadroom s \<and> stoppableQueue s = []))"

text \<open>
  One round of the loop of \<open>pull\<close> from \<open>this.scheduleQueue.shift()\<close> to its
  \<open>continue\<close>; \<open>fdHeadroom\<close> and \<open>emptyStoppableQueue\<close> are read before the shift.
\<close>

definition pull_step :: "(nat \<Rightarrow> sys \<Rightarrow> sys outcome) \<Rightarrow> sys \<Rightarrow> sys outcome" where
  "pull_step tick' s =
     (let headroom = fdHeadroom s;
          emptyStoppableQueue = (stoppableQueue s = []);
          pathWorker = hd (scheduleQueue s);
          s1 = s\<lparr>scheduleQueue := tl (scheduleQueue s)\<rparr>
      in
      if control (workers s1 pathWorker) = Start then Done s1
      else if state (workers s1 pathWorker) \<noteq> Closed then start tick' pathWorker None s1
      else if headroom then
        start tick' pathWorker (Some (StartedCb pathWorker))
          (s1\<lparr>numActivePathWorkers := numActivePathWorkers s1 + 1\<rparr>)
      else if \<not> emptyStoppableQueue then
        (let stoppableWorker = hd (stoppableQueue s1);
             s2 = s1\<lparr>stoppableQueue := tl (stoppableQueue s1)\<rparr>
         in and_then (stop tick' stoppableWorker StoppedCb s2) (\<lambda>s3.
              Done (s3\<lparr>scheduleQueue := pathWorker # scheduleQueue s3\<rparr>)))
      else Threw AssertionError s1)"

text \<open>
  \<open>tick\<close> and \<open>pull\<close> call each other through the closures, so they are defined
  together, by recursion on a bound on the depth of calls and loop rounds.
\<close>

fun tick :: "nat \<Rightarrow> nat \<Rightarrow> sys \<Rightarrow> sys outcome"
  and pull :: "nat \<Rightarrow> sys \<Rightarrow> sys outcome" where
  "tick 0 w s = OutOfFuel"
| "tick (Suc n) w s = tick_body (\<lambda>v t. tick n v t) (\<lambda>t. pull n t) w s"
| "pull 0 s = OutOfFuel"
| "pull (Suc n) s =
     (if pull_returns s then Done s
      else and_then (pull_step (\<lambda>v t. tick n v t) s) (\<lambda>t. pull n t))"


text \<open>
  \<open>this.pathInterfaces = {}\<close> is an ordinary object, so reading a key that is
  not an own property finds the property of that name on \<open>Object.prototype\<close>, if
  there is one, and \<open>undefined\<close> otherwise.
\<close>

definition object_prototype_keys :: "string list" where
  "object_prototype_keys =
     [''constructor'', ''__defineGetter__'', ''__defineSetter__'', ''hasOwnProperty'',
      ''__lookupGetter__'', ''__lookupSetter__'', ''isPrototypeOf'',
      ''propertyIsEnumerable'', ''toString'', ''valueOf'', ''__proto__'',
      ''toLocaleString'']"

definition get_prop :: "(string \<rightharpoonup> jsval) \<Rightarrow> string \<Rightarrow> jsval" where
  "get_prop m k =
     (case m k of
        Some v \<Rightarrow> v
      | None \<Rightarrow> if k \<in> set object_prototype_keys then Inherited k else Undefined)"

definition truthy :: "jsval \<Rightarrow> bool" where
  "truthy v = (v \<noteq> Undefined)"

text \<open>
  The constructor: \<open>assert(dirPath)\<close> and \<open>assert(maxOpenFiles)\<close> reject a missing
  value, the empty string and zero. \<open>maxOpenFiles\<close> is a count of files.
\<close>

definition new_rafs :: "string option \<Rightarrow> nat option \<Rightarrow> js_error + sys" where
  "new_rafs dp mof =
     (case dp of
        None \<Rightarrow> Inl AssertionError
      | Some d \<Rightarrow>
          if d = [] then Inl AssertionError
          else
            (case mof of
               None \<Rightarrow> Inl AssertionError
             | Some m \<Rightarrow>
                 if m = 0 then Inl AssertionError
                 else Inr \<lparr>dirPath = d, maxOpenFiles = m, pathInterfaces = Map.empty,
                           numActivePathWorkers = 0, stoppableQueue = [],
                           scheduleQueue = [], workers = (\<lambda>_. new_worker []),
                           created = [], pending = [], oslog = [], submitted = [],
                           delivered = []\<rparr>))"

text \<open>\<open>Path.join(this.dirPath, shortPath)\<close>, without the normalisation of the result.\<close>

definition fullPath_of :: "sys \<Rightarrow> string \<Rightarrow> string" where
  "fullPath_of s shortPath = dirPath s @ ''/'' @ shortPath"

text \<open>
  The body of the \<open>if\<close> in \<open>storageFor\<close>: a new \<open>PathWorker\<close>, a new
  \<open>PathInterface\<close> holding it, and the assignment to the key.
\<close>

definition create_interface :: "string \<Rightarrow> sys \<Rightarrow> sys" where
  "create_interface shortPath s =
     (let pathWorker = length (created s) in
      s\<lparr>workers := (workers s)(pathWorker := new_worker (fullPath_of s shortPath)),
        created := created s @ [shortPath],
        pathInterfaces := (pathInterfaces s)(shortPath \<mapsto> Interface pathWorker)\<rparr>)"

definition storageFor :: "string \<Rightarrow> sys \<Rightarrow> jsval \<times> sys" where
  "storageFor shortPath s =
     (let s1 =
        (if \<not> truthy (get_prop (pathInterfaces s) shortPath)
         then create_interface shortPath s
         else s)
      in (get_prop (pathInterfaces s1) shortPath, s1))"

text \<open>\<open>op(pathWorker, type, offset, sizeOrData, cb)\<close>.\<close>

definition rafs_op :: "nat \<Rightarrow> nat \<Rightarrow> op \<Rightarrow> sys \<Rightarrow> sys outcome" where
  "rafs_op n pathWorker x s =
     and_then (add (\<lambda>v t. tick n v t) pathWorker x s) (\<lambda>s1.
       pull n (s1\<lparr>scheduleQueue := scheduleQueue s1 @ [pathWorker]\<rparr>))"

section \<open>Clients and the operating system\<close>

text \<open>
  What client code does with the module: \<open>rafs.storageFor(p)\<close>,
  \<open>rafs.storageFor(p).read(offset, size, cb)\<close> and
  \<open>rafs.storageFor(p).write(offset, data, cb)\<close>. Calling \<open>read\<close> on a value that
  is not a \<open>PathInterface\<close> is a \<open>TypeError\<close>.
\<close>

datatype action =
    CallStorageFor string
  | CallRead string int int nat
  | CallWrite string int "byte list" nat

fun do_action :: "nat \<Rightarrow> action \<Rightarrow> sys \<Rightarrow> sys outcome" where
  "do_action n (CallStorageFor p) s = Done (snd (storageFor p s))"
| "do_action n (CallRead p offset readSize cb) s =
     (case storageFor p s of
        (Interface w, s1) \<Rightarrow> rafs_op n w (ReadOp offset readSize cb) s1
      | (_, s1) \<Rightarrow> Threw TypeError s1)"
| "do_action n (CallWrite p offset writeData cb) s =
     (case storageFor p s of
        (Interface w, s1) \<Rightarrow> rafs_op n w (WriteOp offset writeData cb) s1
      | (_, s1) \<Rightarrow> Threw TypeError s1)"

fun do_actions :: "nat \<Rightarrow> action list \<Rightarrow> sys \<Rightarrow> sys outcome" where
  "do_actions n [] s = Done s"
| "do_actions n (a # as) s = and_then (do_action n a s) (\<lambda>t. do_actions n as t)"

text \<open>
  Calling the client's completion function \<open>cb\<close>: the call is recorded, then the
  function runs; \<open>acts\<close> is what it does with the module before it returns.
\<close>

definition record_delivery :: "nat \<Rightarrow> delivery \<Rightarrow> sys \<Rightarrow> sys" where
  "record_delivery cb d s = s\<lparr>delivered := delivered s @ [(cb, d)]\<rparr>"

definition client :: "nat \<Rightarrow> nat \<Rightarrow> delivery \<Rightarrow> action list \<Rightarrow> sys \<Rightarrow> sys outcome" where
  "client n cb d acts s = do_actions n acts (record_delivery cb d s)"

text \<open>
  \<open>Buffer.alloc(readSize)\<close> is a zero-filled buffer; the operating system
  overwrites its first bytes with the bytes it read.
\<close>

definition buffer_alloc :: "int \<Rightarrow> byte list" where
  "buffer_alloc n = replicate (nat n) 0"

definition fill :: "byte list \<Rightarrow> byte list \<Rightarrow> byte list" where
  "fill buf bs = take (length buf) bs @ drop (length bs) buf"

text \<open>
  The completion closures. The operating system reports \<open>(err)\<close>, \<open>(err, fd)\<close>,
  \<open>(err, bytesRead)\<close> or \<open>(err, written)\<close>: \<open>err\<close> is an error number if any,
  \<open>k\<close> the descriptor or the count of bytes written, \<open>bs\<close> the bytes a read
  produced.
\<close>

fun complete ::
  "nat \<Rightarrow> io_req \<Rightarrow> nat option \<Rightarrow> nat \<Rightarrow> byte list \<Rightarrow> action list \<Rightarrow> sys \<Rightarrow> sys outcome" where
  "complete n (Mkdirp w) err k bs acts s =
     (case err of
        Some e \<Rightarrow> Threw (OsError e) s
      | None \<Rightarrow> Done (issue (FsOpen w) (upd w (\<lambda>p. p\<lparr>fullDirMade := True\<rparr>) s)))"
| "complete n (FsOpen w) err k bs acts s =
     (case err of
        Some e \<Rightarrow> Threw (OsError e) s
      | None \<Rightarrow>
          if state (workers s w) \<noteq> Opening then Threw AssertionError s
          else tick n w (upd w (\<lambda>p. p\<lparr>state := Opened, fd := k\<rparr>) s))"
| "complete n (FsClose w f) err k bs acts s =
     (case err of
        Some e \<Rightarrow> Threw (OsError e) s
      | None \<Rightarrow>
          if state (workers s w) \<noteq> Closing then Threw AssertionError s
          else tick n w (upd w (\<lambda>p. p\<lparr>state := Closed, fd := 0\<rparr>) s))"
| "complete n (FsRead w f readSize offset cb) err k bs acts s =
     (let s1 = upd w (\<lambda>p. p\<lparr>inFlightReads := inFlightReads p - 1\<rparr>) s in
      and_then
        (case err of
           Some e \<Rightarrow> client n cb (ReadResult (Some (OsError e)) None) acts s1
         | None \<Rightarrow>
             if length bs = 0
             then client n cb (ReadResult (Some CouldNotSatisfyLength) None) acts s1
             else if int (length bs) \<noteq> readSize then Threw AssertionError s1
             else client n cb (ReadResult None (Some (fill (buffer_alloc readSize) bs))) acts s1)
        (\<lambda>t. tick n w t))"
| "complete n (FsWrite w f writeData offset cb) err k bs acts s =
     (let s1 = upd w (\<lambda>p. p\<lparr>inFlightWrites := inFlightWrites p - 1\<rparr>) s in
      and_then
        (case err of
           Some e \<Rightarrow> client n cb (WriteResult (Some (OsError e))) acts s1
         | None \<Rightarrow>
             if k \<noteq> length writeData then Threw AssertionError s1
             else client n cb (WriteResult None) acts s1)
        (\<lambda>t. tick n w t))"

definition take_pending :: "nat \<Rightarrow> sys \<Rightarrow> sys" where
  "take_pending i s = s\<lparr>pending := take i (pending s) @ drop (Suc i) (pending s)\<rparr>"

text \<open>
  One turn of the event loop: client code runs, or the operating system
  completes the pending request at position \<open>i\<close>.
\<close>

datatype event =
    Client "action list"
  | Completion nat "nat option" nat "byte list" "action list"

fun run_event :: "nat \<Rightarrow> event \<Rightarrow> sys \<Rightarrow> sys outcome" where
  "run_event n (Client acts) s = do_actions n acts s"
| "run_event n (Completion i err k bs acts) s =
     (if i < length (pending s)
      then complete n (pending s ! i) err k bs acts (take_pending i s)
      else Done s)"

text \<open>
  The states of the module between turns of the event loop: the state the
  constructor builds, and the state in which a turn ends when it returns.
\<close>

inductive reachable :: "sys \<Rightarrow> bool" where
  reachable_new: "new_rafs dp mof = Inr s \<Longrightarrow> reachable s"
| reachable_turn: "reachable s \<Longrightarrow> run_event n e s = Done s' \<Longrightarrow> reachable s'"

text \<open>A sequence of turns, each with the same bound.\<close>

fun run_events :: "nat \<Rightarrow> event list \<Rightarrow> sys \<Rightarrow> sys outcome" where
  "run_events n [] s = Done s"
| "run_events n (e # es) s = and_then (run_event n e s) (\<lambda>t. run_events n es t)"

section \<open>Predicates on outcomes\<close>

text \<open>
  \<open>sat b P out\<close>: the state in which a call returned satisfies \<open>P\<close>, and, when
  \<open>b\<close> holds, so does the state in which it threw.
\<close>

definition sat :: "bool \<Rightarrow> (sys \<Rightarrow> bool) \<Rightarrow> sys outcome \<Rightarrow> bool" where
  "sat b P out = (case out of Done s \<Rightarrow> P s | Threw e s \<Rightarrow> b \<longrightarrow> P s | OutOfFuel \<Rightarrow> True)"

text \<open>The requests that carry an op: reads and writes.\<close>

definition is_rw :: "io_req \<Rightarrow> bool" where
  "is_rw r = (case r of FsRead _ _ _ _ _ \<Rightarrow> True | FsWrite _ _ _ _ _ \<Rightarrow> True | _ \<Rightarrow> False)"

text \<open>
  \<open>stable b P\<close>: \<open>P\<close> survives every elementary change of state that \<open>tick\<close>
  and \<open>pull\<close> make outside of \<open>execIfOps\<close>, and survives \<open>execIfOps\<close>.
\<close>

definition stable :: "bool \<Rightarrow> (sys \<Rightarrow> bool) \<Rightarrow> bool" where
  "stable b P =
     (\<forall>s. P s \<longrightarrow>
        (\<forall>w f. (\<forall>p. ops (f p) = ops p) \<longrightarrow> P (upd w f s)) \<and>
        (\<forall>w. sat b P (execIfOps w s)) \<and>
        (\<forall>r. \<not> is_rw r \<longrightarrow> P (issue r s)) \<and>
        (\<forall>q. P (s\<lparr>stoppableQueue := q\<rparr>)) \<and>
        (\<forall>q. P (s\<lparr>scheduleQueue := q\<rparr>)) \<and>
        P (s\<lparr>numActivePathWorkers := numActivePathWorkers s - 1\<rparr>) \<and>
        (fdHeadroom s \<longrightarrow> P (s\<lparr>numActivePathWorkers := numActivePathWorkers s + 1\<rparr>)))"

text \<open>
  \<open>stable_act b P\<close>: \<open>P\<close> is stable and also survives what a call by a client
  changes outside of \<open>tick\<close> and \<open>pull\<close>; \<open>stable_turn b P\<close>: it survives
  moreover the bookkeeping of a completion.
\<close>

definition stable_act :: "bool \<Rightarrow> (sys \<Rightarrow> bool) \<Rightarrow> bool" where
  "stable_act b P =
     (stable b P \<and>
      (\<forall>s. P s \<longrightarrow>
         (\<forall>p. \<not> truthy (get_prop (pathInterfaces s) p) \<longrightarrow> P (create_interface p s)) \<and>
         (\<forall>w x. (\<exists>p. get_prop (pathInterfaces s) p = Interface w) \<longrightarrow>
                P (push_op w x s))))"

definition stable_turn :: "bool \<Rightarrow> (sys \<Rightarrow> bool) \<Rightarrow> bool" where
  "stable_turn b P =
     (stable_act b P \<and>
      (\<forall>s. P s \<longrightarrow> (\<forall>cb d. P (record_delivery cb d s)) \<and> (\<forall>i. P (take_pending i s))))"

text \<open>The descriptor budget: no more active workers than \<open>maxOpenFiles\<close>.\<close>

definition within_budget :: "sys \<Rightarrow> bool" where
  "within_budget s = (numActivePathWorkers s \<le> int (maxOpenFiles s))"

text \<open>
  The states between turns when a turn that throws does not end the process:
  the state at the throw is where the next turn starts.
\<close>

inductive reachable_any :: "sys \<Rightarrow> bool" where
  any_new: "new_rafs dp mof = Inr s \<Longrightarrow> reachable_any s"
| any_returned: "reachable_any s \<Longrightarrow> run_event n e s = Done s' \<Longrightarrow> reachable_any s'"
| any_threw: "reachable_any s \<Longrightarrow> run_event n e s = Threw err s' \<Longrightarrow> reachable_any s'"

definition returned :: "sys outcome \<Rightarrow> bool" where
  "returned out = (case out of Done s \<Rightarrow> True | _ \<Rightarrow> False)"

section \<open>Termination measure\<close>

text \<open>
  What \<open>execIfOps\<close> on worker \<open>w\<close> leaves alone: the lifecycle fields of every
  worker, and every other worker altogether.
\<close>

definition same_lifecycle :: "nat \<Rightarrow> sys \<Rightarrow> sys \<Rightarrow> bool" where
  "same_lifecycle w s t =
     (\<forall>v. control (workers t v) = control (workers s v) \<and>
          state (workers t v) = state (workers s v) \<and>
          fd (workers t v) = fd (workers s v) \<and>
          startCb (workers t v) = startCb (workers s v) \<and>
          stopCb (workers t v) = stopCb (workers s v) \<and>
          fullDirMade (workers t v) = fullDirMade (workers s v) \<and>
          fullPath (workers t v) = fullPath (workers s v) \<and>
          (v \<noteq> w \<longrightarrow> workers t v = workers s v))"

text \<open>
  The measure of a call of \<open>pull\<close>: two for each worker on the schedule queue
  and one for each worker on the stoppable queue.
\<close>

definition mu :: "sys \<Rightarrow> nat" where
  "mu s = 2 * length (scheduleQueue s) + length (stoppableQueue s)"

text \<open>The two states in which \<open>tick\<close> changes the state and calls itself.\<close>

definition redirects :: "nat \<Rightarrow> sys \<Rightarrow> bool" where
  "redirects w s =
     (control (workers s w) = Start \<and> state (workers s w) = Draining \<or>
      control (workers s w) = Stop \<and> state (workers s w) = Opened)"

text \<open>
  \<open>le_out a b\<close>: outcome \<open>b\<close> is the one of \<open>a\<close> unless \<open>a\<close> ran out of fuel.
\<close>

definition le_out :: "sys outcome \<Rightarrow> sys outcome \<Rightarrow> bool" where
  "le_out a b = (a = OutOfFuel \<or> a = b)"

section \<open>Example runs\<close>

text \<open>The scheduler \<open>new RandomAccessFilesystem({dirPath: 'd', maxOpenFiles: 2})\<close>.\<close>

definition example_rafs :: sys where
  "example_rafs =
     \<lparr>dirPath = ''d'', maxOpenFiles = 2, pathInterfaces = Map.empty,
      numActivePathWorkers = 0, stoppableQueue = [], scheduleQueue = [],
      workers = (\<lambda>_. new_worker []), created = [], pending = [], oslog = [],
      submitted = [], delivered = []\<rparr>"

text \<open>
  A client writes one byte to \<open>a\<close> and to \<open>b\<close>; both directories are made and
  both files opened, so that the two writes are with the operating system; then
  the client writes to \<open>c\<close>, for which no descriptor is left.
\<close>

definition pressure_run :: "event list" where
  "pressure_run =
     [Client [CallWrite ''a'' 0 [1] 0, CallWrite ''b'' 0 [1] 1],
      Completion 0 None 0 [] [], Completion 0 None 0 [] [],
      Completion 0 None 3 [] [], Completion 0 None 4 [] [],
      Client [CallWrite ''c'' 0 [1] 2]]"

text \<open>
  \<open>settles f\<close>: with enough fuel the call \<open>f\<close> returns or throws, and more fuel
  does not change how.
\<close>

definition settles :: "(nat \<Rightarrow> sys outcome) \<Rightarrow> bool" where
  "settles f = ((\<forall>n m. n \<le> m \<longrightarrow> le_out (f n) (f m)) \<and> (\<exists>n. f n \<noteq> OutOfFuel))"

text \<open>
  A client reads two bytes of \<open>a\<close>; the directory is made and the file opened
  with descriptor 3, so that the read is with the operating system.
\<close>

definition read_run :: "event list" where
  "read_run =
     [Client [CallRead ''a'' 0 2 7], Completion 0 None 0 [] [], Completion 0 None 3 [] []]"

text \<open>The same with a write of one byte.\<close>

definition write_run :: "event list" where
  "write_run =
     [Client [CallWrite ''a'' 0 [1] 7], Completion 0 None 0 [] [], Completion 0 None 3 [] []]"




text \<open>
  Every short path for which a worker and an interface were constructed has a
  truthy entry in \<open>pathInterfaces\<close>, and no short path occurs twice.
\<close>

definition one_per_path :: "sys \<Rightarrow> bool" where
  "one_per_path s =
     (distinct (created s) \<and> (\<forall>p \<in> set (created s). truthy (get_prop (pathInterfaces s) p)))"

section \<open>Order of dispatch\<close>

text \<open>
  The op a request carries, with the worker it belongs to; \<open>dispatched\<close> is the
  sequence of ops handed to the operating system, in order, and \<open>ops_of w\<close>
  selects the ops of worker \<open>w\<close> from such a sequence.
\<close>

fun req_op :: "io_req \<Rightarrow> (nat \<times> op) list" where
  "req_op (FsRead w f readSize offset cb) = [(w, ReadOp offset readSize cb)]"
| "req_op (FsWrite w f writeData offset cb) = [(w, WriteOp offset writeData cb)]"
| "req_op _ = []"

definition dispatched :: "sys \<Rightarrow> (nat \<times> op) list" where
  "dispatched s = concat (map req_op (oslog s))"

definition ops_of :: "nat \<Rightarrow> (nat \<times> op) list \<Rightarrow> op list" where
  "ops_of w xs = map snd (filter (\<lambda>x. fst x = w) xs)"

text \<open>Every interface in \<open>pathInterfaces\<close> holds a worker that was constructed.\<close>

definition allocated :: "sys \<Rightarrow> bool" where
  "allocated s = (\<forall>p w. get_prop (pathInterfaces s) p = Interface w \<longrightarrow> w < length (created s))"

text \<open>
  For every worker, the ops dispatched so far followed by the ops still queued
  are the ops submitted, in the order of submission.
\<close>

definition fifo :: "sys \<Rightarrow> bool" where
  "fifo s =
     ((\<forall>w. ops_of w (dispatched s) @ ops (workers s w) = ops_of w (submitted s)) \<and>
      allocated s \<and> (\<forall>k \<ge> length (created s). ops (workers s k) = []))"

text \<open>
  A client writes to \<open>a\<close> and then reads from it; the directory is made and the
  file opened; then the client writes to \<open>b\<close>.
\<close>

definition two_ops_run :: "event list" where
  "two_ops_run =
     [Client [CallWrite ''a'' 0 [1] 0, CallRead ''a'' 0 1 1],
      Completion 0 None 0 [] [], Completion 0 None 3 [] [],
      Client [CallWrite ''b'' 0 [2] 2]]"

section \<open>Ops and their requests\<close>



text \<open>
  Files \<open>a\<close> and \<open>b\<close> are opened and written to, a write to \<open>c\<close> evicts both
  while their writes are still with the operating system, the write to \<open>b\<close>
  completes, \<open>b\<close> is closed, and \<open>c\<close> is opened in its place: \<open>a\<close> is still
  draining, \<open>c\<close> is stoppable. Then the client reads from \<open>a\<close>.
\<close>

definition rescue_prefix :: "event list" where
  "rescue_prefix =
     [Client [CallWrite ''a'' 0 [1] 0, CallWrite ''b'' 0 [1] 1],
      Completion 0 None 0 [] [], Completion 0 None 0 [] [],
      Completion 0 None 3 [] [], Completion 0 None 4 [] [],
      Client [CallWrite ''c'' 0 [1] 2],
      Completion 1 None 1 [] [],
      Completion 1 None 0 [] [],
      Completion 1 None 0 [] [],
      Completion 1 None 5 [] []]"

definition rescue_run :: "event list" where
  "rescue_run = rescue_prefix @ [Client [CallRead ''a'' 0 1 3]]"

section \<open>The stoppable queue\<close>

text \<open>
  A call of \<open>pull\<close> is made from a turn of the event loop directly (\<open>Quiet\<close>),
  from inside the start closure that worker \<open>w\<close> is running (\<open>Starting w\<close>), or
  from inside its stop closure (\<open>Stopping w\<close>); the closure is cleared only
  after \<open>pull\<close> has returned.
\<close>

datatype ctx = Quiet | Starting nat | Stopping nat

text \<open>
  What holds of worker \<open>w\<close> whenever \<open>pull\<close> runs: a member of the stoppable
  queue is open under control \<open>Start\<close>, idle, and has no stop notification
  pending; a file is being opened only under control \<open>Start\<close>; a closed worker
  under control \<open>Stop\<close> has its stop closure pending only while that closure
  runs; and a pending start closure is the one \<open>pull\<close> made for this worker,
  which is then being opened, or is running that closure, in which case it is
  the newest member of the stoppable queue or was evicted as the last one.
\<close>

definition wk_inv :: "ctx \<Rightarrow> sys \<Rightarrow> nat \<Rightarrow> bool" where
  "wk_inv c s w =
     ((w \<in> set (stoppableQueue s) \<longrightarrow>
         state (workers s w) = Opened \<and> control (workers s w) = Start \<and>
         ops (workers s w) = [] \<and> stopCb (workers s w) = None) \<and>
      (state (workers s w) = Opening \<longrightarrow> control (workers s w) = Start) \<and>
      (control (workers s w) = Stop \<and> state (workers s w) = Closed \<and>
         stopCb (workers s w) \<noteq> None \<longrightarrow> c = Stopping w) \<and>
      (startCb (workers s w) \<noteq> None \<longrightarrow>
         startCb (workers s w) = Some (StartedCb w) \<and> w < length (created s) \<and>
         (control (workers s w) = Start \<and> state (workers s w) = Opening \<and>
            (stopCb (workers s w) = None \<or> c = Stopping w) \<or>
          c = Starting w \<and>
            (stoppableQueue s \<noteq> [] \<and> last (stoppableQueue s) = w \<or>
             control (workers s w) = Stop \<and> stoppableQueue s = [] \<and> \<not> fdHeadroom s))))"

definition pull_inv :: "ctx \<Rightarrow> sys \<Rightarrow> bool" where
  "pull_inv c s =
     (distinct (stoppableQueue s) \<and>
      (\<forall>w \<in> set (stoppableQueue s). w < length (created s)) \<and>
      (\<forall>w \<in> set (scheduleQueue s). w < length (created s)) \<and>
      (\<forall>w. wk_inv c s w))"

text \<open>A callback of worker \<open>w\<close> would run at its next \<open>tick\<close>.\<close>

definition due :: "nat \<Rightarrow> sys \<Rightarrow> bool" where
  "due w s =
     (control (workers s w) = Start \<and>
        (state (workers s w) = Opened \<or> state (workers s w) = Draining) \<and>
        startCb (workers s w) \<noteq> None \<or>
      control (workers s w) = Stop \<and> state (workers s w) = Closed \<and>
        stopCb (workers s w) \<noteq> None)"

definition same_sched :: "sys \<Rightarrow> sys \<Rightarrow> bool" where
  "same_sched s t =
     (stoppableQueue t = stoppableQueue s \<and> scheduleQueue t = scheduleQueue s \<and>
      numActivePathWorkers t = numActivePathWorkers s \<and> maxOpenFiles t = maxOpenFiles s \<and>
      created t = created s \<and> pathInterfaces t = pathInterfaces s)"

text \<open>
  What a \<open>tick\<close> of worker \<open>w\<close> that runs no callback does: the scheduler's
  fields and the other workers stay, and \<open>w\<close> takes the step of its state
  machine.
\<close>

definition quiet :: "nat \<Rightarrow> sys \<Rightarrow> sys \<Rightarrow> bool" where
  "quiet w s t =
     (same_sched s t \<and>
      (\<forall>v. v \<noteq> w \<longrightarrow> workers t v = workers s v) \<and>
      control (workers t w) = control (workers s w) \<and>
      startCb (workers t w) = startCb (workers s w) \<and>
      stopCb (workers t w) = stopCb (workers s w) \<and>
      (control (workers s w) = Start \<longrightarrow>
         (state (workers s w) = Closed \<longrightarrow> state (workers t w) = Opening) \<and>
         (state (workers s w) = Opened \<or> state (workers s w) = Draining \<longrightarrow>
            state (workers t w) = Opened \<and> ops (workers t w) = []) \<and>
         (state (workers s w) = Opening \<or> state (workers s w) = Closing \<longrightarrow>
            state (workers t w) = state (workers s w))) \<and>
      (control (workers s w) = Stop \<longrightarrow>
         (state (workers s w) = Opened \<or> state (workers s w) = Draining \<longrightarrow>
            state (workers t w) = Draining \<or> state (workers t w) = Closing) \<and>
         (state (workers s w) = Opening \<or> state (workers s w) = Closing \<or>
          state (workers s w) = Closed \<longrightarrow> state (workers t w) = state (workers s w))))"

text \<open>Two states that differ at most in the queue and counters of worker \<open>w\<close>.\<close>

definition agree :: "nat \<Rightarrow> sys \<Rightarrow> sys \<Rightarrow> bool" where
  "agree w s s' =
     (same_sched s s' \<and> (\<forall>v. v \<noteq> w \<longrightarrow> workers s' v = workers s v) \<and>
      control (workers s' w) = control (workers s w) \<and>
      state (workers s' w) = state (workers s w) \<and>
      startCb (workers s' w) = startCb (workers s w) \<and>
      stopCb (workers s' w) = stopCb (workers s w))"

section \<open>Properties\<close>


lemma and_then_Done [simp]: "and_then (Done s) f = f s"
  and and_then_Threw [simp]: "and_then (Threw e s) f = Threw e s"
  and and_then_OutOfFuel [simp]: "and_then OutOfFuel f = OutOfFuel"
  by (simp_all add: and_then_def)

lemma upd_fields [simp]:
  "workers (upd w f s) = (workers s)(w := f (workers s w))"
  "dirPath (upd w f s) = dirPath s"
  "maxOpenFiles (upd w f s) = maxOpenFiles s"
  "pathInterfaces (upd w f s) = pathInterfaces s"
  "numActivePathWorkers (upd w f s) = numActivePathWorkers s"
  "stoppableQueue (upd w f s) = stoppableQueue s"
  "scheduleQueue (upd w f s) = scheduleQueue s"
  "created (upd w f s) = created s"
  "pending (upd w f s) = pending s"
  "oslog (upd w f s) = oslog s"
  "submitted (upd w f s) = submitted s"
  "delivered (upd w f s) = delivered s"
  by (simp_all add: upd_def)

lemma issue_fields [simp]:
  "workers (issue r s) = workers s"
  "dirPath (issue r s) = dirPath s"
  "maxOpenFiles (issue r s) = maxOpenFiles s"
  "pathInterfaces (issue r s) = pathInterfaces s"
  "numActivePathWorkers (issue r s) = numActivePathWorkers s"
  "stoppableQueue (issue r s) = stoppableQueue s"
  "scheduleQueue (issue r s) = scheduleQueue s"
  "created (issue r s) = created s"
  "pending (issue r s) = pending s @ [r]"
  "oslog (issue r s) = oslog s @ [r]"
  "submitted (issue r s) = submitted s"
  "delivered (issue r s) = delivered s"
  by (simp_all add: issue_def)

lemma sat_simps [simp]:
  "sat b P (Done s) = P s"
  "sat b P (Threw e s) = (b \<longrightarrow> P s)"
  "sat b P OutOfFuel"
  by (simp_all add: sat_def)

lemma sat_and_then:
  assumes "sat b P m" and "\<And>t. P t \<Longrightarrow> sat b P (f t)"
  shows "sat b P (and_then m f)"
  using assms by (cases m) auto

lemma stableD:
  assumes "stable b P" "P s"
  shows "(\<forall>p. ops (f p) = ops p) \<Longrightarrow> P (upd w f s)"
    and "sat b P (execIfOps w s)"
    and "\<not> is_rw r \<Longrightarrow> P (issue r s)"
    and "P (s\<lparr>stoppableQueue := q\<rparr>)"
    and "P (s\<lparr>scheduleQueue := q'\<rparr>)"
    and "P (s\<lparr>numActivePathWorkers := numActivePathWorkers s - 1\<rparr>)"
    and "fdHeadroom s \<Longrightarrow> P (s\<lparr>numActivePathWorkers := numActivePathWorkers s + 1\<rparr>)"
  using assms unfolding stable_def by blast+

lemma open_file_stable:
  assumes "stable b P" "P s" shows "sat b P (open_file w s)"
  using assms(2) stableD(1,3)[OF assms(1)]
  by (simp add: open_file_def Let_def is_rw_def)

lemma closeIfDrained_stable:
  assumes "stable b P" "P s" shows "sat b P (closeIfDrained w s)"
  using assms(2) stableD(1,3)[OF assms(1)]
  by (simp add: closeIfDrained_def Let_def is_rw_def)

lemma run_startCb_stable:
  assumes "stable b P" "P s" "\<And>t. P t \<Longrightarrow> sat b P (pull' t)"
  shows "sat b P (run_startCb pull' cb s)"
  using assms(2,3) stableD(4)[OF assms(1)]
  by (cases cb) simp_all

lemma run_stopCb_stable:
  assumes "stable b P" "P s" "\<And>t. P t \<Longrightarrow> sat b P (pull' t)"
  shows "sat b P (run_stopCb pull' cb s)"
  using assms(2,3) stableD(6)[OF assms(1)]
  by (cases cb) simp_all

lemma tick_body_stable:
  assumes st: "stable b P" and P: "P s"
    and t: "\<And>v t. P t \<Longrightarrow> sat b P (tick' v t)"
    and p: "\<And>t. P t \<Longrightarrow> sat b P (pull' t)"
  shows "sat b P (tick_body tick' pull' w s)"
proof -
  note up = stableD(1)[OF st]
  have ex: "sat b P (execIfOps w s)" by (rule stableD(2)[OF st P])
  have a: "sat b P (and_then (execIfOps w s) (\<lambda>s1.
                 case startCb (workers s1 w) of
                   None \<Rightarrow> Done s1
                 | Some cb \<Rightarrow>
                     and_then (run_startCb pull' cb s1) (\<lambda>s2.
                       Done (upd w (\<lambda>p. p\<lparr>startCb := None\<rparr>) s2))))"
    by (rule sat_and_then[OF ex])
       (auto split: option.splits intro!: sat_and_then run_startCb_stable[OF st] p up)
  have b: "sat b P (and_then (execIfOps w s) (\<lambda>s1.
                 tick' w (upd w (\<lambda>p. p\<lparr>state := Draining\<rparr>) s1)))"
    by (rule sat_and_then[OF ex]) (auto intro!: t up)
  have c: "sat b P (case stopCb (workers s w) of
                  None \<Rightarrow> Done s
                | Some cb \<Rightarrow>
                    and_then (run_stopCb pull' cb s) (\<lambda>s2.
                      Done (upd w (\<lambda>p. p\<lparr>stopCb := None\<rparr>) s2)))"
    using P by (auto split: option.splits intro!: sat_and_then run_stopCb_stable[OF st] p up)
  show ?thesis
    unfolding tick_body_def
    using a b c P open_file_stable[OF st P] closeIfDrained_stable[OF st P]
    by (auto split: control.splits wstate.splits intro!: t up)
qed

lemma start_stable:
  assumes st: "stable b P" and P: "P s"
    and t: "\<And>v t. P t \<Longrightarrow> sat b P (tick' v t)"
  shows "sat b P (start tick' w cb s)"
  using P stableD(1)[OF st]
  by (auto simp: start_def Let_def split: option.splits intro!: t)

lemma stop_stable:
  assumes st: "stable b P" and P: "P s"
    and t: "\<And>v t. P t \<Longrightarrow> sat b P (tick' v t)"
  shows "sat b P (stop tick' w cb s)"
  using P stableD(1)[OF st]
  by (auto simp: stop_def Let_def intro!: t)

lemma pull_step_stable:
  assumes st: "stable b P" and P: "P s"
    and t: "\<And>v t. P t \<Longrightarrow> sat b P (tick' v t)"
  shows "sat b P (pull_step tick' s)"
proof -
  have P1: "P (s\<lparr>scheduleQueue := tl (scheduleQueue s)\<rparr>)"
    by (rule stableD(5)[OF st P])
  have P2: "fdHeadroom s \<Longrightarrow>
    P (s\<lparr>scheduleQueue := tl (scheduleQueue s),
         numActivePathWorkers := numActivePathWorkers s + 1\<rparr>)"
    using stableD(7)[OF st P1] by (simp add: fdHeadroom_def)
  have P3: "P (s\<lparr>scheduleQueue := tl (scheduleQueue s),
                 stoppableQueue := tl (stoppableQueue s)\<rparr>)"
    using stableD(4)[OF st P1] by simp
  show ?thesis
    unfolding pull_step_def Let_def
    using P1 P2 P3
    by (auto intro!: start_stable[OF st] stop_stable[OF st] t sat_and_then
             stableD(5)[OF st])
qed

lemma tick_pull_stable:
  assumes st: "stable b P"
  shows "(\<forall>w s. P s \<longrightarrow> sat b P (tick n w s)) \<and> (\<forall>s. P s \<longrightarrow> sat b P (pull n s))"
proof (induction n)
  case 0
  show ?case by simp
next
  case (Suc n)
  have t: "\<And>v t. P t \<Longrightarrow> sat b P (tick n v t)" using Suc by blast
  have p: "\<And>t. P t \<Longrightarrow> sat b P (pull n t)" using Suc by blast
  show ?case
    by (auto intro!: tick_body_stable[OF st] pull_step_stable[OF st] sat_and_then t p)
qed

lemma execLoop_sched:
  "sat True (\<lambda>t. numActivePathWorkers t = numActivePathWorkers s \<and>
                  maxOpenFiles t = maxOpenFiles s \<and>
                  stoppableQueue t = stoppableQueue s \<and>
                  scheduleQueue t = scheduleQueue s \<and>
                  created t = created s \<and>
                  pathInterfaces t = pathInterfaces s \<and>
                  submitted t = submitted s \<and>
                  delivered t = delivered s \<and>
                  dirPath t = dirPath s)
     (execLoop w xs s)"
proof (induction xs arbitrary: s)
  case Nil
  show ?case by simp
next
  case (Cons x xs)
  show ?case
  proof (cases x)
    case (ReadOp offset readSize cb)
    then show ?thesis
      using Cons.IH[of "issue (FsRead w (fd (workers s w)) readSize offset cb)
          (upd w (\<lambda>p. p\<lparr>inFlightReads := inFlightReads p + 1\<rparr>) (upd w (\<lambda>p. p\<lparr>ops := xs\<rparr>) s))"]
      by (simp add: Let_def)
  next
    case (WriteOp offset writeData cb)
    then show ?thesis
      using Cons.IH[of "issue (FsWrite w (fd (workers s w)) writeData offset cb)
          (upd w (\<lambda>p. p\<lparr>inFlightWrites := inFlightWrites p + 1\<rparr>) (upd w (\<lambda>p. p\<lparr>ops := xs\<rparr>) s))"]
      by (simp add: Let_def)
  qed
qed

lemma sat_weaken: "sat b P m \<Longrightarrow> (\<And>t. P t \<Longrightarrow> Q t) \<Longrightarrow> sat b Q m"
  by (cases m) auto

lemma sat_True_imp: "sat True P m \<Longrightarrow> sat b P m"
  by (cases m) auto

lemma within_budget_stable: "stable True within_budget"
  unfolding stable_def
proof (intro allI impI conjI)
  fix s w
  assume "within_budget s"
  then show "sat True within_budget (execIfOps w s)"
    unfolding execIfOps_def
    by (intro sat_weaken[OF execLoop_sched]) (simp add: within_budget_def)
qed (simp_all add: within_budget_def fdHeadroom_def)

lemma within_budget_stable_turn: "stable_turn True within_budget"
  unfolding stable_turn_def stable_act_def
  by (simp add: within_budget_stable)
     (simp add: within_budget_def create_interface_def Let_def push_op_def
        record_delivery_def take_pending_def)

lemma rafs_op_stable:
  assumes st: "stable_act b P" and P: "P s"
    and w: "get_prop (pathInterfaces s) p = Interface w"
  shows "sat b P (rafs_op n w x s)"
proof -
  have s: "stable b P" using st by (simp add: stable_act_def)
  have 1: "P (push_op w x s)" using st P w unfolding stable_act_def by blast
  show ?thesis
    unfolding rafs_op_def add_def
    using tick_pull_stable[OF s, of n] 1 stableD(5)[OF s]
    by (auto intro!: sat_and_then)
qed

lemma storageFor_stable:
  assumes st: "stable_act b P" and P: "P s"
  shows "P (snd (storageFor p s))"
  using st P by (simp add: storageFor_def Let_def stable_act_def)

lemma do_action_stable:
  assumes st: "stable_act b P" and P: "P s"
  shows "sat b P (do_action n a s)"
proof (cases a)
  case (CallStorageFor p)
  then show ?thesis using storageFor_stable[OF st P] by simp
next
  case (CallRead p offset readSize cb)
  have "sat b P (rafs_op n w (ReadOp offset readSize cb) (snd (storageFor p s)))"
    if "fst (storageFor p s) = Interface w" for w
    using that by (intro rafs_op_stable[OF st storageFor_stable[OF st P], of p])
      (simp add: storageFor_def Let_def)
  with CallRead show ?thesis
    using storageFor_stable[OF st P, of p]
    by (cases "storageFor p s") (auto split: jsval.splits)
next
  case (CallWrite p offset writeData cb)
  have "sat b P (rafs_op n w (WriteOp offset writeData cb) (snd (storageFor p s)))"
    if "fst (storageFor p s) = Interface w" for w
    using that by (intro rafs_op_stable[OF st storageFor_stable[OF st P], of p])
      (simp add: storageFor_def Let_def)
  with CallWrite show ?thesis
    using storageFor_stable[OF st P, of p]
    by (cases "storageFor p s") (auto split: jsval.splits)
qed

lemma do_actions_stable:
  assumes st: "stable_act b P"
  shows "P s \<Longrightarrow> sat b P (do_actions n acts s)"
  by (induction acts arbitrary: s) (auto intro!: sat_and_then do_action_stable[OF st])

lemma client_stable:
  assumes st: "stable_turn b P" and P: "P s"
  shows "sat b P (client n cb d acts s)"
  unfolding client_def
  using st P by (intro do_actions_stable) (simp_all add: stable_turn_def)

lemma complete_stable:
  assumes st: "stable_turn b P" and P: "P s"
  shows "sat b P (complete n r err k bs acts s)"
proof -
  have s: "stable b P" using st by (simp add: stable_turn_def stable_act_def)
  note up = stableD(1)[OF s]
  note t = tick_pull_stable[OF s, of n, THEN conjunct1, rule_format]
  show ?thesis
  proof (cases r)
    case (Mkdirp w)
    then show ?thesis using P stableD(3)[OF s] up
      by (auto simp: is_rw_def split: option.splits)
  next
    case (FsOpen w)
    then show ?thesis using P by (auto split: option.splits intro!: t up)
  next
    case (FsClose w f)
    then show ?thesis using P by (auto split: option.splits intro!: t up)
  next
    case (FsRead w f readSize offset cb)
    have 1: "P (upd w (\<lambda>p. p\<lparr>inFlightReads := inFlightReads p - 1\<rparr>) s)"
      using P by (intro up) simp_all
    show ?thesis using FsRead 1
      by (auto simp: Let_def split: option.splits intro!: sat_and_then t client_stable[OF st])
  next
    case (FsWrite w f writeData offset cb)
    have 1: "P (upd w (\<lambda>p. p\<lparr>inFlightWrites := inFlightWrites p - 1\<rparr>) s)"
      using P by (intro up) simp_all
    show ?thesis using FsWrite 1
      by (auto simp: Let_def split: option.splits intro!: sat_and_then t client_stable[OF st])
  qed
qed

lemma run_event_stable:
  assumes st: "stable_turn b P" and P: "P s"
  shows "sat b P (run_event n e s)"
proof (cases e)
  case (Client acts)
  have "stable_act b P" using st by (simp add: stable_turn_def)
  from do_actions_stable[OF this P] Client show ?thesis by simp
next
  case (Completion i err k bs acts)
  have "P (take_pending i s)" using st P by (simp add: stable_turn_def)
  then show ?thesis using Completion P complete_stable[OF st] by simp
qed

lemma reachable_stable:
  assumes st: "stable_turn b P"
    and init: "\<And>dp mof s. new_rafs dp mof = Inr s \<Longrightarrow> P s"
  shows "reachable s \<Longrightarrow> P s"
proof (induction rule: reachable.induct)
  case (reachable_new dp mof s)
  then show ?case by (rule init)
next
  case (reachable_turn s n e s')
  then show ?case using run_event_stable[OF st, of s n e] by simp
qed

lemma new_rafs_fields:
  assumes "new_rafs dp mof = Inr s"
  shows "numActivePathWorkers s = 0" "stoppableQueue s = []" "scheduleQueue s = []"
    "created s = []" "pending s = []" "oslog s = []" "submitted s = []" "delivered s = []"
    "pathInterfaces s = Map.empty" "workers s = (\<lambda>_. new_worker [])"
    "0 < maxOpenFiles s" "dirPath s \<noteq> []"
  using assms by (auto simp: new_rafs_def split: option.splits if_splits)

lemma execLoop_worker: "sat True (same_lifecycle w s) (execLoop w xs s)"
proof (induction xs arbitrary: s)
  case Nil
  show ?case by (simp add: same_lifecycle_def)
next
  case (Cons x xs)
  show ?case
  proof (cases x)
    case (ReadOp offset readSize cb)
    let ?s' = "issue (FsRead w (fd (workers s w)) readSize offset cb)
          (upd w (\<lambda>p. p\<lparr>inFlightReads := inFlightReads p + 1\<rparr>) (upd w (\<lambda>p. p\<lparr>ops := xs\<rparr>) s))"
    have "sat True (same_lifecycle w s) (execLoop w xs ?s')"
      by (rule sat_weaken[OF Cons.IH[of ?s']]) (simp add: same_lifecycle_def)
    moreover have "same_lifecycle w s s"
      "same_lifecycle w s (upd w (\<lambda>p. p\<lparr>inFlightReads := inFlightReads p + 1\<rparr>)
         (upd w (\<lambda>p. p\<lparr>ops := xs\<rparr>) s))"
      by (simp_all add: same_lifecycle_def)
    ultimately show ?thesis using ReadOp by (simp add: Let_def)
  next
    case (WriteOp offset writeData cb)
    let ?s' = "issue (FsWrite w (fd (workers s w)) writeData offset cb)
          (upd w (\<lambda>p. p\<lparr>inFlightWrites := inFlightWrites p + 1\<rparr>) (upd w (\<lambda>p. p\<lparr>ops := xs\<rparr>) s))"
    have "sat True (same_lifecycle w s) (execLoop w xs ?s')"
      by (rule sat_weaken[OF Cons.IH[of ?s']]) (simp add: same_lifecycle_def)
    moreover have "same_lifecycle w s s" by (simp add: same_lifecycle_def)
    ultimately show ?thesis using WriteOp by (simp add: Let_def)
  qed
qed

lemma execLoop_fuel: "execLoop w xs s \<noteq> OutOfFuel"
  by (induction xs arbitrary: s) (auto simp: Let_def split: op.splits)

lemma execIfOps_fuel: "execIfOps w s \<noteq> OutOfFuel"
  by (simp add: execIfOps_def execLoop_fuel)

lemma execIfOps_Done_mu:
  assumes "execIfOps w s = Done t"
  shows "mu t = mu s" "control (workers t v) = control (workers s v)"
    "state (workers t v) = state (workers s v)"
    "startCb (workers t v) = startCb (workers s v)"
  using execLoop_sched[of s w "ops (workers s w)"] execLoop_worker[of w s "ops (workers s w)"] assms
  by (simp_all add: execIfOps_def mu_def same_lifecycle_def)

lemma mu_simps [simp]:
  "mu (upd w f s) = mu s"
  "mu (issue r s) = mu s"
  "mu (s\<lparr>numActivePathWorkers := k\<rparr>) = mu s"
  "mu (s\<lparr>stoppableQueue := q\<rparr>) = 2 * length (scheduleQueue s) + length q"
  "mu (s\<lparr>scheduleQueue := q'\<rparr>) = 2 * length q' + length (stoppableQueue s)"
  by (simp_all add: mu_def)

lemma and_then_eq_Done:
  "and_then m f = Done t \<longleftrightarrow> (\<exists>s1. m = Done s1 \<and> f s1 = Done t)"
  by (cases m) auto

lemma tick_body_mu:
  assumes t: "\<And>v s t. tick' v s = Done t \<Longrightarrow>
               mu t \<le> mu s + (if control (workers s v) = Start then 1 else 0)"
    and p: "\<And>s t. pull' s = Done t \<Longrightarrow> mu t \<le> mu s"
    and d: "tick_body tick' pull' w s = Done t"
  shows "mu t \<le> mu s + (if control (workers s w) = Start then 1 else 0)"
proof (cases "control (workers s w)")
  case Start
  show ?thesis
  proof (cases "state (workers s w)")
    case Opened
    from d Start Opened obtain s1 where s1: "execIfOps w s = Done s1"
      and r: "(case startCb (workers s1 w) of None \<Rightarrow> Done s1
              | Some cb \<Rightarrow> and_then (run_startCb pull' cb s1)
                  (\<lambda>s2. Done (upd w (\<lambda>p. p\<lparr>startCb := None\<rparr>) s2))) = Done t"
      by (auto simp: tick_body_def and_then_eq_Done)
    show ?thesis
    proof (cases "startCb (workers s1 w)")
      case None
      with r execIfOps_Done_mu(1)[OF s1] show ?thesis by simp
    next
      case (Some cb)
      obtain v where cb: "cb = StartedCb v" by (cases cb)
      from r Some cb obtain s2 where
        "pull' (s1\<lparr>stoppableQueue := stoppableQueue s1 @ [v]\<rparr>) = Done s2"
        "t = upd w (\<lambda>p. p\<lparr>startCb := None\<rparr>) s2"
        by (auto simp: and_then_eq_Done)
      with p[OF this(1)] execIfOps_Done_mu(1)[OF s1] Start show ?thesis
        by (simp add: mu_def)
    qed
  next
    case Draining
    with d Start have "tick' w (upd w (\<lambda>p. p\<lparr>state := Opened\<rparr>) s) = Done t"
      by (simp add: tick_body_def)
    from t[OF this] Start show ?thesis by simp
  qed (use d Start in \<open>auto simp: tick_body_def open_file_def Let_def split: if_splits\<close>)
next
  case Stop
  show ?thesis
  proof (cases "state (workers s w)")
    case Opened
    from d Stop Opened obtain s1 where s1: "execIfOps w s = Done s1"
      and r: "tick' w (upd w (\<lambda>p. p\<lparr>state := Draining\<rparr>) s1) = Done t"
      by (auto simp: tick_body_def and_then_eq_Done)
    from t[OF r] execIfOps_Done_mu(1,2)[OF s1] Stop show ?thesis by simp
  next
    case Closed
    show ?thesis
    proof (cases "stopCb (workers s w)")
      case None
      with d Stop Closed show ?thesis by (simp add: tick_body_def)
    next
      case (Some cb)
      have cb: "cb = StoppedCb" by (cases cb)
      from d Stop Closed Some cb obtain s2 where
        "pull' (s\<lparr>numActivePathWorkers := numActivePathWorkers s - 1\<rparr>) = Done s2"
        "t = upd w (\<lambda>p. p\<lparr>stopCb := None\<rparr>) s2"
        by (auto simp: tick_body_def and_then_eq_Done)
      with p[OF this(1)] Stop show ?thesis by simp
    qed
  qed (use d Stop in \<open>auto simp: tick_body_def closeIfDrained_def Let_def split: if_splits\<close>)
qed

lemma pull_step_mu:
  assumes t: "\<And>v s t. tick' v s = Done t \<Longrightarrow>
               mu t \<le> mu s + (if control (workers s v) = Start then 1 else 0)"
    and nr: "\<not> pull_returns s"
    and d: "pull_step tick' s = Done t"
  shows "mu t < mu s"
proof -
  from nr obtain x xs where q: "scheduleQueue s = x # xs"
    by (cases "scheduleQueue s") (auto simp: pull_returns_def)
  let ?s1 = "s\<lparr>scheduleQueue := xs\<rparr>"
  have m1: "mu ?s1 + 2 = mu s" using q by (simp add: mu_def)
  show ?thesis
  proof (cases "control (workers s x) = Start")
    case True
    with d q m1 show ?thesis by (simp add: pull_step_def)
  next
    case ns: False
    show ?thesis
    proof (cases "state (workers s x) \<noteq> Closed")
      case True
      with d q ns have "tick' x (upd x (\<lambda>p. p\<lparr>control := Start\<rparr>) ?s1) = Done t"
        by (simp add: pull_step_def start_def)
      from t[OF this] m1 show ?thesis by simp
    next
      case cl: False
      show ?thesis
      proof (cases "fdHeadroom s")
        case True
        with d q ns cl have "tick' x (upd x (\<lambda>p. p\<lparr>startCb := Some (StartedCb x)\<rparr>)
            (upd x (\<lambda>p. p\<lparr>control := Start\<rparr>)
              (?s1\<lparr>numActivePathWorkers := numActivePathWorkers s + 1\<rparr>))) = Done t"
          by (simp add: pull_step_def start_def Let_def split: if_splits)
        from t[OF this] m1 show ?thesis by simp
      next
        case False
        with nr obtain y ys where sq: "stoppableQueue s = y # ys"
          by (cases "stoppableQueue s") (auto simp: pull_returns_def)
        let ?s2 = "?s1\<lparr>stoppableQueue := ys\<rparr>"
        from d q ns cl False sq obtain s3 where
          s3: "tick' y (upd y (\<lambda>p. p\<lparr>stopCb := Some StoppedCb\<rparr>)
                 (upd y (\<lambda>p. p\<lparr>control := Stop\<rparr>) ?s2)) = Done s3"
          and tt: "t = s3\<lparr>scheduleQueue := x # scheduleQueue s3\<rparr>"
          by (auto simp: pull_step_def stop_def Let_def and_then_eq_Done split: if_splits)
        from t[OF s3] have "mu s3 \<le> mu ?s2" by simp
        with tt q sq show ?thesis by (simp add: mu_def)
      qed
    qed
  qed
qed

lemma tick_pull_mu:
  "(\<forall>w s t. tick n w s = Done t \<longrightarrow>
       mu t \<le> mu s + (if control (workers s w) = Start then 1 else 0)) \<and>
   (\<forall>s t. pull n s = Done t \<longrightarrow> mu t \<le> mu s)"
proof (induction n)
  case 0
  show ?case by simp
next
  case (Suc n)
  have t: "\<And>v s t. tick n v s = Done t \<Longrightarrow>
             mu t \<le> mu s + (if control (workers s v) = Start then 1 else 0)"
    using Suc by blast
  have p: "\<And>s t. pull n s = Done t \<Longrightarrow> mu t \<le> mu s" using Suc by blast
  have "mu t \<le> mu s" if "pull (Suc n) s = Done t" for s t
  proof (cases "pull_returns s")
    case True
    with that show ?thesis by simp
  next
    case False
    with that obtain s1 where 1: "pull_step (\<lambda>v t. tick n v t) s = Done s1"
      and 2: "pull n s1 = Done t"
      by (auto simp: and_then_eq_Done)
    from pull_step_mu[OF t False 1] p[OF 2] show ?thesis by simp
  qed
  moreover have "mu t \<le> mu s + (if control (workers s w) = Start then 1 else 0)"
    if "tick (Suc n) w s = Done t" for w s t
    using that tick_body_mu[OF t p, of "\<lambda>v t. tick n v t" "\<lambda>t. pull n t" w s t] by simp
  ultimately show ?case by blast
qed

lemma and_then_fuel:
  "and_then m f \<noteq> OutOfFuel \<longleftrightarrow> m \<noteq> OutOfFuel \<and> (\<forall>s1. m = Done s1 \<longrightarrow> f s1 \<noteq> OutOfFuel)"
  by (cases m) auto

lemma tick_body_fuel:
  assumes t: "\<And>v s. 3 * mu s + 5 \<le> n \<Longrightarrow> \<not> redirects v s \<Longrightarrow> tick' v s \<noteq> OutOfFuel"
    and p: "\<And>s. 3 * mu s + 1 \<le> n \<Longrightarrow> pull' s \<noteq> OutOfFuel"
    and b: "3 * mu s + 6 \<le> Suc n \<or> (3 * mu s + 5 \<le> Suc n \<and> \<not> redirects w s)"
  shows "tick_body tick' pull' w s \<noteq> OutOfFuel"
proof (cases "control (workers s w)")
  case Start
  show ?thesis
  proof (cases "state (workers s w)")
    case Opened
    have "(case startCb (workers s1 w) of None \<Rightarrow> Done s1
            | Some cb \<Rightarrow> and_then (run_startCb pull' cb s1)
                (\<lambda>s2. Done (upd w (\<lambda>p. p\<lparr>startCb := None\<rparr>) s2))) \<noteq> OutOfFuel"
      if s1: "execIfOps w s = Done s1" for s1
    proof (cases "startCb (workers s1 w)")
      case None
      then show ?thesis by simp
    next
      case (Some cb)
      obtain v where cb: "cb = StartedCb v" by (cases cb)
      have "3 * mu (s1\<lparr>stoppableQueue := stoppableQueue s1 @ [v]\<rparr>) + 1 \<le> n"
        using b execIfOps_Done_mu(1)[OF s1] by (auto simp: mu_def)
      from p[OF this] Some cb show ?thesis by (simp add: and_then_fuel)
    qed
    with Start Opened show ?thesis
      by (simp add: tick_body_def and_then_fuel execIfOps_fuel)
  next
    case Draining
    have "tick' w (upd w (\<lambda>p. p\<lparr>state := Opened\<rparr>) s) \<noteq> OutOfFuel"
      using b Start Draining by (intro t) (auto simp: redirects_def)
    with Start Draining show ?thesis by (simp add: tick_body_def)
  qed (use Start in \<open>auto simp: tick_body_def open_file_def Let_def\<close>)
next
  case Stop
  show ?thesis
  proof (cases "state (workers s w)")
    case Opened
    have "tick' w (upd w (\<lambda>p. p\<lparr>state := Draining\<rparr>) s1) \<noteq> OutOfFuel"
      if s1: "execIfOps w s = Done s1" for s1
      using b Stop Opened execIfOps_Done_mu(1,2)[OF s1]
      by (intro t) (auto simp: redirects_def)
    with Stop Opened show ?thesis
      by (simp add: tick_body_def and_then_fuel execIfOps_fuel)
  next
    case Closed
    show ?thesis
    proof (cases "stopCb (workers s w)")
      case None
      with Stop Closed show ?thesis by (simp add: tick_body_def)
    next
      case (Some cb)
      have cb: "cb = StoppedCb" by (cases cb)
      have "3 * mu (s\<lparr>numActivePathWorkers := numActivePathWorkers s - 1\<rparr>) + 1 \<le> n"
        using b by auto
      from p[OF this] Stop Closed Some cb show ?thesis
        by (simp add: tick_body_def and_then_fuel)
    qed
  qed (use Stop in \<open>auto simp: tick_body_def closeIfDrained_def Let_def\<close>)
qed

lemma pull_step_fuel:
  assumes t: "\<And>v s. 3 * mu s + 6 \<le> n \<Longrightarrow> tick' v s \<noteq> OutOfFuel"
    and nr: "\<not> pull_returns s"
    and b: "3 * mu s \<le> n"
  shows "pull_step tick' s \<noteq> OutOfFuel"
proof -
  from nr obtain x xs where q: "scheduleQueue s = x # xs"
    by (cases "scheduleQueue s") (auto simp: pull_returns_def)
  have m: "2 \<le> mu s" using q by (simp add: mu_def)
  have 1: "tick' v (upd v f (s\<lparr>scheduleQueue := xs\<rparr>)) \<noteq> OutOfFuel" for v f
    using b q by (intro t) (simp add: mu_def)
  have 2: "tick' v (upd v f (upd v g (s\<lparr>scheduleQueue := xs,
             numActivePathWorkers := k\<rparr>))) \<noteq> OutOfFuel" for v f g k
    using b q by (intro t) (simp add: mu_def)
  have 3: "tick' v (upd v f (upd v g (s\<lparr>scheduleQueue := xs,
             stoppableQueue := ys\<rparr>))) \<noteq> OutOfFuel"
    if "length ys \<le> length (stoppableQueue s)" for v f g ys
    using b q that by (intro t) (simp add: mu_def)
  show ?thesis
    using q 1 2 3[of "tl (stoppableQueue s)"]
    by (auto simp: pull_step_def start_def stop_def Let_def and_then_fuel)
qed

lemma tick_pull_fuel:
  "(\<forall>w s. 3 * mu s + 6 \<le> n \<or> (3 * mu s + 5 \<le> n \<and> \<not> redirects w s) \<longrightarrow>
       tick n w s \<noteq> OutOfFuel) \<and>
   (\<forall>s. 3 * mu s + 1 \<le> n \<longrightarrow> pull n s \<noteq> OutOfFuel)"
proof (induction n)
  case 0
  show ?case by simp
next
  case (Suc n)
  have t: "\<And>v s. 3 * mu s + 5 \<le> n \<Longrightarrow> \<not> redirects v s \<Longrightarrow> tick n v s \<noteq> OutOfFuel"
    using Suc by blast
  have t6: "\<And>v s. 3 * mu s + 6 \<le> n \<Longrightarrow> tick n v s \<noteq> OutOfFuel"
    using Suc by blast
  have p: "\<And>s. 3 * mu s + 1 \<le> n \<Longrightarrow> pull n s \<noteq> OutOfFuel" using Suc by blast
  have tm: "\<And>v s t. tick n v s = Done t \<Longrightarrow>
             mu t \<le> mu s + (if control (workers s v) = Start then 1 else 0)"
    using tick_pull_mu[of n] by blast
  have "pull (Suc n) s \<noteq> OutOfFuel" if b: "3 * mu s + 1 \<le> Suc n" for s
  proof (cases "pull_returns s")
    case True
    then show ?thesis by simp
  next
    case False
    have 1: "pull_step (\<lambda>v t. tick n v t) s \<noteq> OutOfFuel"
      using b by (intro pull_step_fuel[OF t6 False]) simp_all
    have 2: "pull n s1 \<noteq> OutOfFuel" if "pull_step (\<lambda>v t. tick n v t) s = Done s1" for s1
      using pull_step_mu[OF tm False that] b by (intro p) simp
    from False 1 2 show ?thesis by (simp add: and_then_fuel)
  qed
  moreover have "tick (Suc n) w s \<noteq> OutOfFuel"
    if "3 * mu s + 6 \<le> Suc n \<or> (3 * mu s + 5 \<le> Suc n \<and> \<not> redirects w s)" for w s
    using tick_body_fuel[OF t p that] by simp
  ultimately show ?case by blast
qed

lemma le_out_refl [simp]: "le_out a a" by (simp add: le_out_def)

lemma le_out_trans: "le_out a b \<Longrightarrow> le_out b c \<Longrightarrow> le_out a c"
  by (auto simp: le_out_def)

lemma le_out_and_then:
  assumes "le_out a b" and "\<And>s. le_out (f s) (g s)"
  shows "le_out (and_then a f) (and_then b g)"
proof (cases a)
  case (Done s)
  with assms(1) have "b = Done s" by (simp add: le_out_def)
  with Done assms(2)[of s] show ?thesis by simp
qed (use assms(1) in \<open>auto simp: le_out_def\<close>)

lemma tick_body_mono:
  assumes "\<And>v s. le_out (t1 v s) (t2 v s)" "\<And>s. le_out (p1 s) (p2 s)"
  shows "le_out (tick_body t1 p1 w s) (tick_body t2 p2 w s)"
proof -
  have a: "le_out (run_startCb p1 cb s) (run_startCb p2 cb s)" for cb s
    using assms(2) by (cases cb) simp
  have b: "le_out (run_stopCb p1 cb s) (run_stopCb p2 cb s)" for cb s
    using assms(2) by (cases cb) simp
  show ?thesis
    unfolding tick_body_def
    by (auto split: control.splits wstate.splits option.splits
             intro!: le_out_and_then assms a b)
qed

lemma pull_step_mono:
  assumes "\<And>v s. le_out (t1 v s) (t2 v s)"
  shows "le_out (pull_step t1 s) (pull_step t2 s)"
  unfolding pull_step_def start_def stop_def Let_def
  by (auto split: option.splits intro!: le_out_and_then assms)

lemma tick_pull_Suc:
  "(\<forall>w s. le_out (tick n w s) (tick (Suc n) w s)) \<and> (\<forall>s. le_out (pull n s) (pull (Suc n) s))"
proof (induction n)
  case 0
  show ?case by (simp add: le_out_def)
next
  case (Suc n)
  have t: "\<And>v s. le_out (tick n v s) (tick (Suc n) v s)" using Suc by blast
  have p: "\<And>s. le_out (pull n s) (pull (Suc n) s)" using Suc by blast
  have "le_out (tick (Suc n) w s) (tick (Suc (Suc n)) w s)" for w s
  proof -
    have e1: "tick (Suc n) w s = tick_body (\<lambda>v t. tick n v t) (\<lambda>t. pull n t) w s"
      by (rule tick.simps(2))
    have e2: "tick (Suc (Suc n)) w s =
        tick_body (\<lambda>v t. tick (Suc n) v t) (\<lambda>t. pull (Suc n) t) w s"
      by (rule tick.simps(2))
    show ?thesis
      by (subst e2, subst e1, rule tick_body_mono) (rule t p)+
  qed
  moreover have "le_out (pull (Suc n) s) (pull (Suc (Suc n)) s)" for s
  proof -
    have e1: "pull (Suc n) s = (if pull_returns s then Done s
        else and_then (pull_step (\<lambda>v t. tick n v t) s) (\<lambda>t. pull n t))"
      by (rule pull.simps(2))
    have e2: "pull (Suc (Suc n)) s = (if pull_returns s then Done s
        else and_then (pull_step (\<lambda>v t. tick (Suc n) v t) s) (\<lambda>t. pull (Suc n) t))"
      by (rule pull.simps(2))
    show ?thesis
    proof (cases "pull_returns s")
      case True
      then show ?thesis by (subst e2, subst e1) simp
    next
      case False
      have "le_out (and_then (pull_step (\<lambda>v t. tick n v t) s) (\<lambda>t. pull n t))
              (and_then (pull_step (\<lambda>v t. tick (Suc n) v t) s) (\<lambda>t. pull (Suc n) t))"
        by (rule le_out_and_then, rule pull_step_mono) (rule t p)+
      with False show ?thesis by (subst e2, subst e1) (simp only: if_False)
    qed
  qed
  ultimately show ?case by blast
qed

lemma tick_mono: "n \<le> m \<Longrightarrow> le_out (tick n w s) (tick m w s)"
proof (induction m)
  case 0
  then show ?case by simp
next
  case (Suc m)
  show ?case
  proof (cases "n = Suc m")
    case True
    then show ?thesis by (simp only: le_out_refl)
  next
    case False
    with Suc have "le_out (tick n w s) (tick m w s)" by simp
    moreover have "le_out (tick m w s) (tick (Suc m) w s)"
      using tick_pull_Suc[of m] by blast
    ultimately show ?thesis by (rule le_out_trans)
  qed
qed

lemma pull_mono: "n \<le> m \<Longrightarrow> le_out (pull n s) (pull m s)"
proof (induction m)
  case 0
  then show ?case by simp
next
  case (Suc m)
  show ?case
  proof (cases "n = Suc m")
    case True
    then show ?thesis by (simp only: le_out_refl)
  next
    case False
    with Suc have "le_out (pull n s) (pull m s)" by simp
    moreover have "le_out (pull m s) (pull (Suc m) s)"
      using tick_pull_Suc[of m] by blast
    ultimately show ?thesis by (rule le_out_trans)
  qed
qed

lemma pull_fuel_bound: "pull (3 * mu s + 1) s \<noteq> OutOfFuel"
  using tick_pull_fuel[of "3 * mu s + 1"] by blast

lemma tick_fuel_bound: "tick (3 * mu s + 6) w s \<noteq> OutOfFuel"
  using tick_pull_fuel[of "3 * mu s + 6"] by blast

lemmas run_defs =
  returned_def rafs_op_def add_def push_op_def storageFor_def get_prop_def truthy_def
  create_interface_def object_prototype_keys_def Let_def new_worker_def fullPath_of_def
  tick_body_def pull_step_def pull_returns_def fdHeadroom_def start_def stop_def
  open_file_def closeIfDrained_def execIfOps_def take_pending_def client_def
  record_delivery_def upd_def issue_def eval_nat_numeral buffer_alloc_def fill_def

lemma example_rafs_new: "new_rafs (Some ''d'') (Some 2) = Inr example_rafs"
  by (simp add: new_rafs_def example_rafs_def)

lemma reachable_any_stable:
  assumes st: "stable_turn True P"
    and init: "\<And>dp mof s. new_rafs dp mof = Inr s \<Longrightarrow> P s"
  shows "reachable_any s \<Longrightarrow> P s"
proof (induction rule: reachable_any.induct)
  case (any_new dp mof s)
  then show ?case by (rule init)
next
  case (any_returned s n e s')
  then show ?case using run_event_stable[OF st, of s n e] by simp
next
  case (any_threw s n e err s')
  then show ?case using run_event_stable[OF st, of s n e] by simp
qed

lemma reachable_run_events:
  "reachable s \<Longrightarrow> sat False reachable (run_events n es s)"
proof (induction es arbitrary: s)
  case Nil
  then show ?case by simp
next
  case (Cons e es)
  show ?case
  proof (cases "run_event n e s")
    case (Done t)
    with Cons.prems have "reachable t" by (auto intro: reachable_turn)
    from Cons.IH[OF this] Done show ?thesis by simp
  qed simp_all
qed

lemma reachable_imp_any: "reachable s \<Longrightarrow> reachable_any s"
  by (induction rule: reachable.induct) (auto intro: reachable_any.intros)

lemma returnedE: "returned out \<Longrightarrow> (\<And>t. out = Done t \<Longrightarrow> thesis) \<Longrightarrow> thesis"
  by (cases out) (simp_all add: returned_def)

lemma example_reachable: "reachable example_rafs"
  by (rule reachable_new[OF example_rafs_new])

section \<open>The descriptor budget\<close>

text \<open>
  C1. Between any two turns of the event loop, whether the turns before returned
  or threw, the scheduler's counter \<open>numActivePathWorkers\<close> is at most
  \<open>maxOpenFiles\<close>: \<open>pull\<close> adds one only in the branch guarded by the headroom
  it read in the same round, and the stop closure only subtracts.
\<close>

theorem active_workers_within_budget:
  "reachable_any s \<Longrightarrow> numActivePathWorkers s \<le> int (maxOpenFiles s)"
  using reachable_any_stable[OF within_budget_stable_turn, of s]
  by (simp add: within_budget_def new_rafs_fields)

text \<open>
  After \<open>pressure_run\<close> the budget of two is used up and the bound holds with
  equality.
\<close>

theorem active_workers_within_budget_witness:
  "(case run_events 8 pressure_run example_rafs of
      Done t \<Rightarrow> reachable_any t \<and> numActivePathWorkers t = 2 \<and>
                numActivePathWorkers t \<le> int (maxOpenFiles t)
    | _ \<Rightarrow> False)"
proof -
  have "returned (run_events 8 pressure_run example_rafs)"
    by (simp add: pressure_run_def example_rafs_def run_defs)
  then obtain t where t: "run_events 8 pressure_run example_rafs = Done t"
    by (rule returnedE)
  have n: "numActivePathWorkers t = 2"
  proof -
    have "(case run_events 8 pressure_run example_rafs of
             Done t \<Rightarrow> numActivePathWorkers t = 2 | _ \<Rightarrow> False)"
      by (simp add: pressure_run_def example_rafs_def run_defs)
    with t show ?thesis by simp
  qed
  from reachable_run_events[OF example_reachable, of 8 pressure_run] t
  have "reachable_any t" by (simp add: reachable_imp_any)
  from active_workers_within_budget[OF this] this n t show ?thesis by simp
qed

lemma settles_const [simp]: "c \<noteq> OutOfFuel \<Longrightarrow> settles (\<lambda>n. c)"
  by (simp add: settles_def)

lemma settles_and_then:
  assumes f: "settles f" and g: "\<And>s. settles (\<lambda>n. g n s)"
  shows "settles (\<lambda>n. and_then (f n) (\<lambda>s. g n s))"
proof -
  have mono: "le_out (and_then (f n) (\<lambda>s. g n s)) (and_then (f m) (\<lambda>s. g m s))"
    if "n \<le> m" for n m
    using f g that by (intro le_out_and_then) (auto simp: settles_def)
  from f obtain N where N: "f N \<noteq> OutOfFuel" by (auto simp: settles_def)
  have "\<exists>n. and_then (f n) (\<lambda>s. g n s) \<noteq> OutOfFuel"
  proof (cases "f N")
    case (Done s1)
    from g[of s1] obtain M where M: "g M s1 \<noteq> OutOfFuel" by (auto simp: settles_def)
    have "le_out (f N) (f (max N M))" using f by (simp add: settles_def)
    with Done have 1: "f (max N M) = Done s1" by (simp add: le_out_def)
    have "le_out (g M s1) (g (max N M) s1)" using g[of s1] by (simp add: settles_def)
    with M have "g (max N M) s1 \<noteq> OutOfFuel" by (auto simp: le_out_def)
    with 1 have "and_then (f (max N M)) (\<lambda>s. g (max N M) s) \<noteq> OutOfFuel" by simp
    then show ?thesis ..
  next
    case (Threw e s1)
    then have "and_then (f N) (\<lambda>s. g N s) \<noteq> OutOfFuel" by simp
    then show ?thesis ..
  next
    case OutOfFuel
    with N show ?thesis by simp
  qed
  with mono show ?thesis by (simp add: settles_def)
qed

lemma settles_tick: "settles (\<lambda>n. tick n w s)"
  unfolding settles_def using tick_mono[of _ _ w s] tick_fuel_bound[of s w] by blast

lemma settles_pull: "settles (\<lambda>n. pull n s)"
  unfolding settles_def using pull_mono[of _ _ s] pull_fuel_bound[of s] by blast

lemma settles_rafs_op: "settles (\<lambda>n. rafs_op n w x s)"
  unfolding rafs_op_def add_def
  by (rule settles_and_then[OF settles_tick]) (rule settles_pull)

lemma settles_interface:
  "settles (\<lambda>n. case v of Interface w \<Rightarrow> rafs_op n w x s | _ \<Rightarrow> Threw TypeError s)"
  by (cases v) (simp_all add: settles_rafs_op)

lemma settles_do_action: "settles (\<lambda>n. do_action n a s)"
proof (cases a)
  case (CallStorageFor p)
  then show ?thesis by simp
next
  case (CallRead p offset readSize cb)
  then show ?thesis
    using settles_interface[where v = "fst (storageFor p s)" and s = "snd (storageFor p s)"]
    by (simp add: case_prod_unfold)
next
  case (CallWrite p offset writeData cb)
  then show ?thesis
    using settles_interface[where v = "fst (storageFor p s)" and s = "snd (storageFor p s)"]
    by (simp add: case_prod_unfold)
qed

lemma settles_do_actions: "settles (\<lambda>n. do_actions n acts s)"
proof (induction acts arbitrary: s)
  case Nil
  show ?case by simp
next
  case (Cons a acts)
  show ?case
    using settles_and_then[OF settles_do_action[of a s], of "\<lambda>n t. do_actions n acts t"] Cons
    by simp
qed

lemma settles_client: "settles (\<lambda>n. client n cb d acts s)"
  by (simp add: client_def settles_do_actions)

lemma settles_complete: "settles (\<lambda>n. complete n r err k bs acts s)"
proof (cases r)
  case (FsRead w f readSize offset cb)
  show ?thesis
    unfolding FsRead complete.simps Let_def
    by (rule settles_and_then; cases err; cases "bs = []"; cases "int (length bs) = readSize")
       (simp_all add: settles_client settles_tick)
next
  case (FsWrite w f writeData offset cb)
  show ?thesis
    unfolding FsWrite complete.simps Let_def
    by (rule settles_and_then; cases err; cases "k = length writeData")
       (simp_all add: settles_client settles_tick)
next
  case (Mkdirp w)
  then show ?thesis by (cases err) simp_all
next
  case (FsOpen w)
  then show ?thesis
    by (cases err; cases "state (workers s w) = Opening") (simp_all add: settles_tick)
next
  case (FsClose w f)
  then show ?thesis
    by (cases err; cases "state (workers s w) = Closing") (simp_all add: settles_tick)
qed

lemma settles_run_event: "settles (\<lambda>n. run_event n e s)"
proof (cases e)
  case (Client acts)
  then show ?thesis by (simp add: settles_do_actions)
next
  case (Completion i err k bs acts)
  then show ?thesis by (cases "i < length (pending s)") (simp_all add: settles_complete)
qed

lemma delivered_stable_act: "stable_act True (\<lambda>t. delivered t = d)"
  unfolding stable_act_def stable_def
proof (intro allI impI conjI)
  fix s :: sys and w
  assume "delivered s = d"
  then show "sat True (\<lambda>t. delivered t = d) (execIfOps w s)"
    unfolding execIfOps_def
    by (intro sat_weaken[OF execLoop_sched]) simp
qed (simp_all add: create_interface_def push_op_def Let_def)

lemma client_delivers:
  "sat True (\<lambda>t. delivered t = delivered s @ [(cb, d)]) (client n cb d acts s)"
  unfolding client_def
  by (rule do_actions_stable[OF delivered_stable_act]) (simp add: record_delivery_def)

lemma tick_delivered: "delivered s = d \<Longrightarrow> sat True (\<lambda>t. delivered t = d) (tick n w s)"
  using tick_pull_stable[of True "\<lambda>t. delivered t = d" n] delivered_stable_act[of d]
  by (simp add: stable_act_def)

lemma outcome_caseD:
  "(case out of Done t \<Rightarrow> P t | Threw e t \<Rightarrow> False | OutOfFuel \<Rightarrow> False) \<Longrightarrow>
   \<exists>t. out = Done t \<and> P t"
  by (cases out) simp_all

section \<open>Completion of reads and writes\<close>

text \<open>
  C2. The completion closure of a read, for every state and every read request:
  it ends with enough fuel; when the operating system reports an error, the
  client's function is called once with that error and no data; when it reports
  no error and no bytes, the function is called once with the error
  \<open>Could not satisfy length\<close> and no data; when it read exactly \<open>readSize\<close>
  bytes, the function is called once with no error and a buffer of length
  \<open>readSize\<close>; when it read some bytes but not \<open>readSize\<close>, the assertion
  fails, after the in-flight count was decremented and without a call of the
  client's function.
\<close>

theorem read_completion:
  "(\<exists>n. complete n (FsRead w f readSize offset cb) err k bs acts s \<noteq> OutOfFuel) \<and>
   sat True (\<lambda>t. delivered t = delivered s @ [(cb, ReadResult (Some (OsError e)) None)])
     (complete n (FsRead w f readSize offset cb) (Some e) k bs acts s) \<and>
   sat True (\<lambda>t. delivered t = delivered s @ [(cb, ReadResult (Some CouldNotSatisfyLength) None)])
     (complete n (FsRead w f readSize offset cb) None k [] acts s) \<and>
   (bs \<noteq> [] \<and> int (length bs) = readSize \<longrightarrow>
      (\<exists>buf. length buf = nat readSize \<and>
         sat True (\<lambda>t. delivered t = delivered s @ [(cb, ReadResult None (Some buf))])
           (complete n (FsRead w f readSize offset cb) None k bs acts s))) \<and>
   (bs \<noteq> [] \<and> int (length bs) \<noteq> readSize \<longrightarrow>
      complete n (FsRead w f readSize offset cb) None k bs acts s =
        Threw AssertionError (upd w (\<lambda>p. p\<lparr>inFlightReads := inFlightReads p - 1\<rparr>) s))"
proof -
  let ?s1 = "upd w (\<lambda>p. p\<lparr>inFlightReads := inFlightReads p - 1\<rparr>) s"
  have d: "sat True (\<lambda>t. delivered t = delivered s @ [(cb, x)])
             (and_then (client n cb x acts ?s1) (\<lambda>t. tick n w t))" for x
    using client_delivers[of ?s1 cb x n acts]
    by (auto intro!: sat_and_then tick_delivered)
  have 1: "\<exists>n. complete n (FsRead w f readSize offset cb) err k bs acts s \<noteq> OutOfFuel"
    using settles_complete[of "FsRead w f readSize offset cb" err k bs acts s]
    by (simp add: settles_def)
  have 4: "\<exists>buf. length buf = nat readSize \<and>
         sat True (\<lambda>t. delivered t = delivered s @ [(cb, ReadResult None (Some buf))])
           (complete n (FsRead w f readSize offset cb) None k bs acts s)"
    if "bs \<noteq> []" "int (length bs) = readSize"
  proof -
    have "length (fill (buffer_alloc readSize) bs) = nat readSize"
      using that by (auto simp: fill_def buffer_alloc_def)
    moreover have "sat True (\<lambda>t. delivered t = delivered s @
        [(cb, ReadResult None (Some (fill (buffer_alloc readSize) bs)))])
           (complete n (FsRead w f readSize offset cb) None k bs acts s)"
      using that d by (simp add: Let_def)
    ultimately show ?thesis by blast
  qed
  show ?thesis
    using 1 4 d by (simp add: Let_def)
qed

theorem read_completion_witness:
  "(case run_events 8 read_run example_rafs of
      Done s \<Rightarrow>
        pending s = [FsRead 0 3 2 0 7] \<and> delivered s = [] \<and>
        (\<exists>buf. length buf = 2 \<and>
           sat True (\<lambda>t. delivered t = [(7, ReadResult None (Some buf))])
             (run_event 8 (Completion 0 None 0 [5, 6] []) s)) \<and>
        run_event 8 (Completion 0 None 0 [5] []) s =
          Threw AssertionError
            (upd 0 (\<lambda>p. p\<lparr>inFlightReads := inFlightReads p - 1\<rparr>) (take_pending 0 s))
    | _ \<Rightarrow> False)"
proof -
  have "(case run_events 8 read_run example_rafs of
      Done s \<Rightarrow> pending s = [FsRead 0 3 2 0 7] \<and> delivered s = [] | _ \<Rightarrow> False)"
    by (simp add: read_run_def example_rafs_def run_defs)
  then obtain s where s: "run_events 8 read_run example_rafs = Done s"
    and p: "pending s = [FsRead 0 3 2 0 7]" and d: "delivered s = []"
    by (auto dest: outcome_caseD)
  have d': "delivered (take_pending 0 s) = []" using d by (simp add: take_pending_def)
  from read_completion[of 0 3 2 0 7 None 0 "[5, 6]" "[]" "take_pending 0 s" 0 8]
       read_completion[of 0 3 2 0 7 None 0 "[5]" "[]" "take_pending 0 s" 0 8]
  show ?thesis using s p d d' by simp
qed

text \<open>
  C9. The completion closure of a write, for every state and every write
  request: it ends with enough fuel; when the operating system reports an error,
  the client's function is called once with that error; when it reports no error
  and as many bytes written as the caller's buffer holds, the function is called
  once with no error; when it reports no error and another count, the assertion
  fails without a call of the client's function.
\<close>

theorem write_completion:
  "(\<exists>n. complete n (FsWrite w f writeData offset cb) err k bs acts s \<noteq> OutOfFuel) \<and>
   sat True (\<lambda>t. delivered t = delivered s @ [(cb, WriteResult (Some (OsError e)))])
     (complete n (FsWrite w f writeData offset cb) (Some e) k bs acts s) \<and>
   sat True (\<lambda>t. delivered t = delivered s @ [(cb, WriteResult None)])
     (complete n (FsWrite w f writeData offset cb) None (length writeData) bs acts s) \<and>
   (k \<noteq> length writeData \<longrightarrow>
      complete n (FsWrite w f writeData offset cb) None k bs acts s =
        Threw AssertionError (upd w (\<lambda>p. p\<lparr>inFlightWrites := inFlightWrites p - 1\<rparr>) s))"
proof -
  let ?s1 = "upd w (\<lambda>p. p\<lparr>inFlightWrites := inFlightWrites p - 1\<rparr>) s"
  have d: "sat True (\<lambda>t. delivered t = delivered s @ [(cb, x)])
             (and_then (client n cb x acts ?s1) (\<lambda>t. tick n w t))" for x
    using client_delivers[of ?s1 cb x n acts]
    by (auto intro!: sat_and_then tick_delivered)
  have 1: "\<exists>n. complete n (FsWrite w f writeData offset cb) err k bs acts s \<noteq> OutOfFuel"
    using settles_complete[of "FsWrite w f writeData offset cb" err k bs acts s]
    by (simp add: settles_def)
  show ?thesis
    using 1 d by (simp add: Let_def)
qed

theorem write_completion_witness:
  "(case run_events 8 write_run example_rafs of
      Done s \<Rightarrow>
        pending s = [FsWrite 0 3 [1] 0 7] \<and> delivered s = [] \<and>
        sat True (\<lambda>t. delivered t = [(7, WriteResult None)])
          (run_event 8 (Completion 0 None 1 [] []) s) \<and>
        run_event 8 (Completion 0 None 0 [] []) s =
          Threw AssertionError
            (upd 0 (\<lambda>p. p\<lparr>inFlightWrites := inFlightWrites p - 1\<rparr>) (take_pending 0 s))
    | _ \<Rightarrow> False)"
proof -
  have "(case run_events 8 write_run example_rafs of
      Done s \<Rightarrow> pending s = [FsWrite 0 3 [1] 0 7] \<and> delivered s = [] | _ \<Rightarrow> False)"
    by (simp add: write_run_def example_rafs_def run_defs)
  then obtain s where s: "run_events 8 write_run example_rafs = Done s"
    and p: "pending s = [FsWrite 0 3 [1] 0 7]" and d: "delivered s = []"
    by (auto dest: outcome_caseD)
  have d': "delivered (take_pending 0 s) = []" using d by (simp add: take_pending_def)
  from write_completion[of 0 3 "[1]" 0 7 None 1 "[]" "[]" "take_pending 0 s" 0 8]
       write_completion[of 0 3 "[1]" 0 7 None 0 "[]" "[]" "take_pending 0 s" 0 8]
  show ?thesis using s p d d' by simp
qed

section \<open>Validation of arguments\<close>




section \<open>\<open>storageFor\<close>\<close>

text \<open>
  C7. \<open>storageFor('constructor')\<close> on a new scheduler finds the property that
  the object \<open>pathInterfaces\<close> inherits, takes it for a memoised handle and
  returns it: no worker and no interface is constructed, and a read through the
  returned value is a \<open>TypeError\<close>. The same holds for every key of
  \<open>object_prototype_keys\<close>.
\<close>

theorem storageFor_inherited_key:
  "storageFor ''constructor'' example_rafs = (Inherited ''constructor'', example_rafs) \<and>
   created example_rafs = [] \<and>
   run_event 8 (Client [CallRead ''constructor'' 0 1 7]) example_rafs =
     Threw TypeError example_rafs"
  by (simp add: storageFor_def get_prop_def truthy_def object_prototype_keys_def
        example_rafs_def)

text \<open>
  What does hold of \<open>storageFor\<close> for every short path: a second call returns
  what the first returned and changes nothing, and no short path gets two
  workers.
\<close>

lemma get_prop_upd: "get_prop (m(p \<mapsto> v)) q = (if q = p then v else get_prop m q)"
  by (simp add: get_prop_def)

lemma storageFor_idempotent:
  "storageFor p (snd (storageFor p s)) = (fst (storageFor p s), snd (storageFor p s))"
proof (cases "truthy (get_prop (pathInterfaces s) p)")
  case True
  then show ?thesis by (simp add: storageFor_def)
next
  case False
  then show ?thesis
    by (simp add: storageFor_def create_interface_def Let_def get_prop_upd truthy_def)
qed

lemma one_per_path_create:
  assumes 1: "one_per_path s" and 2: "\<not> truthy (get_prop (pathInterfaces s) p)"
  shows "one_per_path (create_interface p s)"
proof -
  from 1 2 have "p \<notin> set (created s)" by (auto simp: one_per_path_def)
  with 1 show ?thesis
    by (auto simp: one_per_path_def create_interface_def Let_def get_prop_upd truthy_def)
qed

lemma one_per_path_frame:
  "one_per_path (upd w f s) = one_per_path s"
  "one_per_path (issue r s) = one_per_path s"
  "one_per_path (s\<lparr>stoppableQueue := q\<rparr>) = one_per_path s"
  "one_per_path (s\<lparr>scheduleQueue := q\<rparr>) = one_per_path s"
  "one_per_path (s\<lparr>numActivePathWorkers := k\<rparr>) = one_per_path s"
  "one_per_path (push_op w x s) = one_per_path s"
  "one_per_path (record_delivery cb d s) = one_per_path s"
  "one_per_path (take_pending i s) = one_per_path s"
  by (simp_all add: one_per_path_def push_op_def record_delivery_def take_pending_def)

lemma one_per_path_stable: "stable False one_per_path"
  unfolding stable_def
proof (intro allI impI conjI)
  fix s :: sys and w
  assume 1: "one_per_path s"
  have "sat True one_per_path (execLoop w (ops (workers s w)) s)"
    by (rule sat_weaken[OF execLoop_sched]) (use 1 in \<open>simp add: one_per_path_def\<close>)
  then show "sat False one_per_path (execIfOps w s)"
    by (simp add: execIfOps_def sat_True_imp)
qed (simp_all only: one_per_path_frame)

lemma one_per_path_stable_turn: "stable_turn False one_per_path"
  unfolding stable_turn_def stable_act_def
proof (intro conjI allI impI)
  show "stable False one_per_path" by (rule one_per_path_stable)
qed (simp_all add: one_per_path_frame one_per_path_create)

lemma one_worker_per_short_path:
  assumes "reachable s" shows "distinct (created s)"
proof -
  have "one_per_path s"
  proof (rule reachable_stable[OF one_per_path_stable_turn _ assms])
    fix dp mof t
    assume "new_rafs dp mof = Inr t"
    from new_rafs_fields(4)[OF this] show "one_per_path t"
      by (simp add: one_per_path_def)
  qed
  then show ?thesis by (simp add: one_per_path_def)
qed

lemma execLoop_dispatch:
  "ops (workers s w) = xs \<Longrightarrow>
   sat False (\<lambda>t. dispatched t = dispatched s @ map (Pair w) xs \<and> ops (workers t w) = [])
     (execLoop w xs s)"
proof (induction xs arbitrary: s)
  case Nil
  then show ?case by simp
next
  case (Cons x xs)
  show ?case
  proof (cases x)
    case (ReadOp offset readSize cb)
    let ?s' = "issue (FsRead w (fd (workers s w)) readSize offset cb)
          (upd w (\<lambda>p. p\<lparr>inFlightReads := inFlightReads p + 1\<rparr>) (upd w (\<lambda>p. p\<lparr>ops := xs\<rparr>) s))"
    have "sat False (\<lambda>t. dispatched t = dispatched s @ map (Pair w) (x # xs) \<and>
             ops (workers t w) = []) (execLoop w xs ?s')"
      by (rule sat_weaken[OF Cons.IH[of ?s']]) (simp_all add: dispatched_def ReadOp)
    with ReadOp show ?thesis by (simp add: Let_def)
  next
    case (WriteOp offset writeData cb)
    let ?s' = "issue (FsWrite w (fd (workers s w)) writeData offset cb)
          (upd w (\<lambda>p. p\<lparr>inFlightWrites := inFlightWrites p + 1\<rparr>) (upd w (\<lambda>p. p\<lparr>ops := xs\<rparr>) s))"
    have "sat False (\<lambda>t. dispatched t = dispatched s @ map (Pair w) (x # xs) \<and>
             ops (workers t w) = []) (execLoop w xs ?s')"
      by (rule sat_weaken[OF Cons.IH[of ?s']]) (simp_all add: dispatched_def WriteOp)
    with WriteOp show ?thesis by (simp add: Let_def)
  qed
qed

lemma ops_of_simps [simp]:
  "ops_of w [] = []"
  "ops_of w (xs @ ys) = ops_of w xs @ ops_of w ys"
  "ops_of w (map (Pair v) zs) = (if v = w then zs else [])"
  "ops_of w [(v, x)] = (if v = w then [x] else [])"
  by (simp_all add: ops_of_def filter_map o_def)

lemma sat_conj: "sat b P m \<Longrightarrow> sat b Q m \<Longrightarrow> sat b (\<lambda>t. P t \<and> Q t) m"
  by (cases m) auto

lemma execIfOps_fifo:
  assumes "fifo s" shows "sat False fifo (execIfOps w s)"
proof -
  have 1: "sat False (\<lambda>t. dispatched t = dispatched s @ map (Pair w) (ops (workers s w)) \<and>
                ops (workers t w) = []) (execIfOps w s)"
    unfolding execIfOps_def by (rule execLoop_dispatch) simp
  have 2: "sat False (\<lambda>t. submitted t = submitted s \<and> created t = created s \<and>
                pathInterfaces t = pathInterfaces s) (execIfOps w s)"
    unfolding execIfOps_def
    by (rule sat_True_imp[OF sat_weaken[OF execLoop_sched]]) simp
  have 3: "sat False (same_lifecycle w s) (execIfOps w s)"
    unfolding execIfOps_def by (rule sat_True_imp[OF execLoop_worker])
  show ?thesis
    by (rule sat_weaken[OF sat_conj[OF 1 sat_conj[OF 2 3]]])
       (use assms in \<open>auto simp: fifo_def allocated_def same_lifecycle_def\<close>)
qed

lemma fifo_frame:
  "\<forall>p. ops (f p) = ops p \<Longrightarrow> fifo (upd w f s) = fifo s"
  "\<not> is_rw r \<Longrightarrow> fifo (issue r s) = fifo s"
  "fifo (s\<lparr>stoppableQueue := q\<rparr>) = fifo s"
  "fifo (s\<lparr>scheduleQueue := q\<rparr>) = fifo s"
  "fifo (s\<lparr>numActivePathWorkers := k\<rparr>) = fifo s"
  "fifo (record_delivery cb d s) = fifo s"
  "fifo (take_pending i s) = fifo s"
  by (auto simp: fifo_def allocated_def dispatched_def is_rw_def record_delivery_def
        take_pending_def split: io_req.splits)

lemma fifo_stable: "stable False fifo"
  unfolding stable_def
  by (intro allI impI conjI execIfOps_fifo) (simp_all add: fifo_frame)

lemma fifo_create:
  assumes 1: "fifo s" and 2: "\<not> truthy (get_prop (pathInterfaces s) p)"
  shows "fifo (create_interface p s)"
proof -
  let ?k = "length (created s)"
  from 1 have e: "ops (workers s ?k) = []" by (simp add: fifo_def)
  from 1 have "ops_of ?k (dispatched s) @ ops (workers s ?k) = ops_of ?k (submitted s)"
    unfolding fifo_def by blast
  with e have "ops_of ?k (dispatched s) = ops_of ?k (submitted s)" by simp
  with 1 show ?thesis
    by (auto simp: fifo_def allocated_def create_interface_def Let_def dispatched_def
          get_prop_upd new_worker_def less_Suc_eq)
qed

lemma fifo_push:
  assumes 1: "fifo s" and 2: "get_prop (pathInterfaces s) p = Interface w"
  shows "fifo (push_op w x s)"
proof -
  from 1 2 have "w < length (created s)" by (auto simp: fifo_def allocated_def)
  with 1 show ?thesis
    by (auto simp: fifo_def allocated_def push_op_def dispatched_def)
qed

lemma fifo_stable_turn: "stable_turn False fifo"
  unfolding stable_turn_def stable_act_def
proof (intro conjI allI impI)
  show "stable False fifo" by (rule fifo_stable)
qed (auto simp: fifo_frame fifo_create fifo_push)

text \<open>
  C8. In every state reached by turns that returned, and for every worker, the
  ops handed to the operating system so far, in the order they were handed over,
  followed by the ops still on the worker's queue, in queue order, are exactly
  the ops submitted for that worker in the order of submission: \<open>add\<close> appends
  and \<open>execIfOps\<close> takes from the front.
\<close>

theorem dispatch_order_fifo:
  assumes "reachable s"
  shows "ops_of w (dispatched s) @ ops (workers s w) = ops_of w (submitted s)"
proof -
  have "fifo s"
  proof (rule reachable_stable[OF fifo_stable_turn _ assms])
    fix dp mof t
    assume "new_rafs dp mof = Inr t"
    from new_rafs_fields[OF this] show "fifo t"
      by (simp add: fifo_def allocated_def dispatched_def new_worker_def get_prop_def)
  qed
  then show ?thesis by (simp add: fifo_def)
qed

theorem dispatch_order_fifo_witness:
  "(case run_events 8 two_ops_run example_rafs of
      Done s \<Rightarrow>
        reachable s \<and>
        ops_of 0 (dispatched s) = [WriteOp 0 [1] 0, ReadOp 0 1 1] \<and>
        ops (workers s 1) = [WriteOp 0 [2] 2] \<and>
        ops_of 0 (dispatched s) @ ops (workers s 0) = ops_of 0 (submitted s) \<and>
        ops_of 1 (dispatched s) @ ops (workers s 1) = ops_of 1 (submitted s)
    | _ \<Rightarrow> False)"
proof -
  have "(case run_events 8 two_ops_run example_rafs of
      Done s \<Rightarrow> ops_of 0 (dispatched s) = [WriteOp 0 [1] 0, ReadOp 0 1 1] \<and>
                ops (workers s 1) = [WriteOp 0 [2] 2]
    | _ \<Rightarrow> False)"
    by (simp add: two_ops_run_def example_rafs_def run_defs dispatched_def ops_of_def)
  then obtain s where s: "run_events 8 two_ops_run example_rafs = Done s"
    and d: "ops_of 0 (dispatched s) = [WriteOp 0 [1] 0, ReadOp 0 1 1]"
           "ops (workers s 1) = [WriteOp 0 [2] 2]"
    by (auto dest: outcome_caseD)
  from reachable_run_events[OF example_reachable, of 8 two_ops_run] s
  have r: "reachable s" by simp
  from dispatch_order_fifo[OF r, of 0] dispatch_order_fifo[OF r, of 1] r d s
  show ?thesis by simp
qed



section \<open>Rounds of \<open>pull\<close>\<close>


text \<open>
  C6. When the worker \<open>W\<close> at the head of the schedule queue is \<open>Closed\<close> under
  control \<open>Stop\<close>, there is no headroom and the stoppable queue is \<open>V # vs\<close>,
  with \<open>V\<close> open, idle and without a stop notification pending (as the members
  of the stoppable queue are), the round returns with \<open>V\<close> taken off the front of
  the stoppable queue, \<open>V\<close> under control \<open>Stop\<close> with the closure \<open>StoppedCb\<close>
  as its \<open>stopCb\<close> and draining or closing, \<open>W\<close> back at the front of the
  schedule queue, and everything else as before. \<open>StoppedCb\<close> subtracts one from
  \<open>numActivePathWorkers\<close> and calls \<open>pull\<close>; \<open>StartedCb\<close> appends to the back of
  the stoppable queue, so the front is the worker that was appended first.
\<close>

theorem eviction_of_oldest_stoppable:
  assumes q: "scheduleQueue s = W # rest"
    and c: "control (workers s W) = Stop" "state (workers s W) = Closed"
    and nh: "\<not> fdHeadroom s"
    and sq: "stoppableQueue s = V # vs"
    and v: "state (workers s V) = Opened" "stopCb (workers s V) = None" "ops (workers s V) = []"
  shows "(\<exists>t. pull_step (\<lambda>v t. tick (Suc (Suc n)) v t) s = Done t \<and>
              scheduleQueue t = W # rest \<and> stoppableQueue t = vs \<and>
              control (workers t V) = Stop \<and> stopCb (workers t V) = Some StoppedCb \<and>
              state (workers t V) =
                (if inFlightReads (workers s V) = 0 \<and> inFlightWrites (workers s V) = 0
                 then Closing else Draining) \<and>
              numActivePathWorkers t = numActivePathWorkers s \<and>
              (\<forall>u. u \<noteq> V \<longrightarrow> workers t u = workers s u)) \<and>
         run_stopCb pull' StoppedCb u =
           pull' (u\<lparr>numActivePathWorkers := numActivePathWorkers u - 1\<rparr>) \<and>
         run_startCb pull' (StartedCb x) u =
           pull' (u\<lparr>stoppableQueue := stoppableQueue u @ [x]\<rparr>)"
  using assms
  by (auto simp: pull_step_def Let_def stop_def tick_body_def execIfOps_def closeIfDrained_def)


theorem eviction_of_oldest_stoppable_witness:
  "(case run_events 8 (take 5 pressure_run) example_rafs of
      Done s0 \<Rightarrow>
        stoppableQueue s0 = [0, 1] \<and> \<not> fdHeadroom s0 \<and>
        (\<exists>t. pull_step (\<lambda>v t. tick (Suc (Suc 0)) v t)
               ((push_op 2 (WriteOp 0 [1] 2) (create_interface ''c'' s0))
                  \<lparr>scheduleQueue := [2]\<rparr>) = Done t \<and>
             scheduleQueue t = [2] \<and> stoppableQueue t = [1] \<and>
             control (workers t 0) = Stop \<and> stopCb (workers t 0) = Some StoppedCb \<and>
             state (workers t 0) = Draining \<and> numActivePathWorkers t = 2)
    | _ \<Rightarrow> False)"
proof -
  have "(case run_events 8 (take 5 pressure_run) example_rafs of
      Done s0 \<Rightarrow>
        stoppableQueue s0 = [0, 1] \<and> \<not> fdHeadroom s0 \<and> created s0 = [''a'', ''b''] \<and>
        state (workers s0 0) = Opened \<and> stopCb (workers s0 0) = None \<and>
        ops (workers s0 0) = [] \<and> inFlightWrites (workers s0 0) = 1 \<and>
        numActivePathWorkers s0 = 2
    | _ \<Rightarrow> False)"
    by (simp add: pressure_run_def example_rafs_def run_defs)
  then obtain s0 where s0: "run_events 8 (take 5 pressure_run) example_rafs = Done s0"
    and f: "stoppableQueue s0 = [0, 1]" "\<not> fdHeadroom s0" "created s0 = [''a'', ''b'']"
      "state (workers s0 0) = Opened" "stopCb (workers s0 0) = None"
      "ops (workers s0 0) = []" "inFlightWrites (workers s0 0) = 1"
      "numActivePathWorkers s0 = 2"
    by (auto dest: outcome_caseD)
  let ?s = "(push_op 2 (WriteOp 0 [1] 2) (create_interface ''c'' s0))\<lparr>scheduleQueue := [2]\<rparr>"
  have h: "scheduleQueue ?s = 2 # []"
    "control (workers ?s 2) = Stop" "state (workers ?s 2) = Closed"
    "\<not> fdHeadroom ?s" "stoppableQueue ?s = 0 # [1]"
    "state (workers ?s 0) = Opened" "stopCb (workers ?s 0) = None" "ops (workers ?s 0) = []"
    using f
    by (simp_all add: push_op_def create_interface_def Let_def new_worker_def fdHeadroom_def)
  from eviction_of_oldest_stoppable[OF h, of 0, THEN conjunct1]
  obtain t where t: "pull_step (\<lambda>v t. tick (Suc (Suc 0)) v t) ?s = Done t"
    "scheduleQueue t = [2]" "stoppableQueue t = [1]"
    "control (workers t 0) = Stop" "stopCb (workers t 0) = Some StoppedCb"
    "state (workers t 0) =
       (if inFlightReads (workers ?s 0) = 0 \<and> inFlightWrites (workers ?s 0) = 0
        then Closing else Draining)"
    "numActivePathWorkers t = numActivePathWorkers ?s"
    by blast
  have t': "state (workers t 0) = Draining" "numActivePathWorkers t = 2"
    using t(6,7) f
    by (simp_all add: push_op_def create_interface_def Let_def)
  show ?thesis
    unfolding s0 outcome.case
    using f(1,2) t(1-5) t' by blast
qed

lemma execIfOps_Done:
  assumes "execIfOps w s = Done t"
  shows "same_sched s t" "same_lifecycle w s t" "ops (workers t w) = []"
  using assms execLoop_sched[of s w "ops (workers s w)"]
    execLoop_worker[of w s "ops (workers s w)"]
    execLoop_dispatch[of s w "ops (workers s w)"]
  by (simp_all add: execIfOps_def same_sched_def)

lemma tick_body_quiet:
  assumes t: "\<And>v u t. \<not> due v u \<Longrightarrow> tick' v u = Done t \<Longrightarrow> quiet v u t"
    and nd: "\<not> due w s"
    and d: "tick_body tick' pull' w s = Done t"
  shows "quiet w s t"
proof (cases "control (workers s w)")
  case Start
  show ?thesis
  proof (cases "state (workers s w)")
    case Opened
    with nd Start have n: "startCb (workers s w) = None" by (simp add: due_def)
    from d Start Opened obtain s1 where s1: "execIfOps w s = Done s1"
      and r: "(case startCb (workers s1 w) of None \<Rightarrow> Done s1
              | Some cb \<Rightarrow> and_then (run_startCb pull' cb s1)
                  (\<lambda>s2. Done (upd w (\<lambda>p. p\<lparr>startCb := None\<rparr>) s2))) = Done t"
      by (auto simp: tick_body_def and_then_eq_Done)
    from execIfOps_Done[OF s1] n r Start Opened show ?thesis
      by (auto simp: quiet_def same_lifecycle_def)
  next
    case Draining
    let ?u = "upd w (\<lambda>p. p\<lparr>state := Opened\<rparr>) s"
    from d Start Draining have 1: "tick' w ?u = Done t" by (simp add: tick_body_def)
    have "\<not> due w ?u" using nd Start Draining by (simp add: due_def)
    from t[OF this 1] Start Draining show ?thesis
      by (auto simp: quiet_def same_sched_def)
  next
    case Closed
    with d Start show ?thesis
      by (auto simp: tick_body_def open_file_def Let_def quiet_def same_sched_def
               split: if_splits)
  qed (use d Start in \<open>auto simp: tick_body_def quiet_def same_sched_def\<close>)
next
  case Stop
  show ?thesis
  proof (cases "state (workers s w)")
    case Opened
    from d Stop Opened obtain s1 where s1: "execIfOps w s = Done s1"
      and r: "tick' w (upd w (\<lambda>p. p\<lparr>state := Draining\<rparr>) s1) = Done t"
      by (auto simp: tick_body_def and_then_eq_Done)
    let ?u = "upd w (\<lambda>p. p\<lparr>state := Draining\<rparr>) s1"
    have "\<not> due w ?u" using execIfOps_Done[OF s1] Stop
      by (simp add: due_def same_lifecycle_def)
    from t[OF this r] execIfOps_Done[OF s1] Stop Opened show ?thesis
      by (auto simp: quiet_def same_sched_def same_lifecycle_def)
  next
    case Draining
    with d Stop show ?thesis
      by (auto simp: tick_body_def closeIfDrained_def quiet_def same_sched_def
               split: if_splits)
  next
    case Closed
    with nd Stop have "stopCb (workers s w) = None" by (simp add: due_def)
    with d Stop Closed show ?thesis
      by (auto simp: tick_body_def quiet_def same_sched_def)
  qed (use d Stop in \<open>auto simp: tick_body_def quiet_def same_sched_def\<close>)
qed

lemma tick_quiet: "\<not> due w s \<Longrightarrow> tick n w s = Done t \<Longrightarrow> quiet w s t"
proof (induction n arbitrary: w s t)
  case 0
  then show ?case by simp
next
  case (Suc n)
  from Suc.prems(2) have "tick_body (\<lambda>v t. tick n v t) (\<lambda>t. pull n t) w s = Done t" by simp
  from tick_body_quiet[OF _ Suc.prems(1) this] Suc.IH show ?case by blast
qed

lemma agree_refl [simp]: "agree w s s"
  by (simp add: agree_def same_sched_def)

lemma wk_inv_other:
  assumes "stoppableQueue t = stoppableQueue s" "created t = created s"
    "fdHeadroom t = fdHeadroom s" "workers t u = workers s u"
  shows "wk_inv c t u = wk_inv c s u"
  using assms by (simp add: wk_inv_def)

lemma quiet_preserves:
  assumes inv: "pull_inv c s" and ag: "agree w s s'" and nd: "\<not> due w s'"
    and q: "quiet w s' t"
  shows "pull_inv c t"
proof -
  have g: "stoppableQueue t = stoppableQueue s" "created t = created s"
    "scheduleQueue t = scheduleQueue s" "fdHeadroom t = fdHeadroom s"
    using ag q by (simp_all add: agree_def quiet_def same_sched_def fdHeadroom_def)
  have other: "wk_inv c t u" if "u \<noteq> w" for u
  proof -
    have "workers t u = workers s u" using that ag q by (simp add: agree_def quiet_def)
    from wk_inv_other[OF g(1,2,4) this] inv show ?thesis by (simp add: pull_inv_def)
  qed
  have w0: "wk_inv c s w" using inv by (simp add: pull_inv_def)
  have f: "control (workers t w) = control (workers s w)"
    "startCb (workers t w) = startCb (workers s w)"
    "stopCb (workers t w) = stopCb (workers s w)"
    using ag q by (simp_all add: agree_def quiet_def)
  have self: "wk_inv c t w"
  proof (cases "control (workers s w)")
    case Start
    then have c': "control (workers s' w) = Start" using ag by (simp add: agree_def)
    show ?thesis
    proof (cases "state (workers s w)")
      case Closed
      then have "state (workers t w) = Opening" using q c' ag by (simp add: quiet_def agree_def)
      with w0 Start Closed f g show ?thesis by (auto simp: wk_inv_def)
    next
      case Opening
      then have "state (workers t w) = Opening" using q c' ag by (simp add: quiet_def agree_def)
      with w0 Start Opening f g show ?thesis by (auto simp: wk_inv_def)
    next
      case Opened
      then have "state (workers t w) = Opened" "ops (workers t w) = []"
        using q c' ag by (simp_all add: quiet_def agree_def)
      with w0 Start Opened f g show ?thesis by (auto simp: wk_inv_def)
    next
      case Draining
      then have 1: "state (workers t w) = Opened" "ops (workers t w) = []"
        using q c' ag by (simp_all add: quiet_def agree_def)
      from nd Draining c' ag have "startCb (workers s w) = None"
        by (simp add: due_def agree_def)
      with 1 w0 Start Draining f g show ?thesis by (auto simp: wk_inv_def)
    next
      case Closing
      then have "state (workers t w) = Closing" using q c' ag by (simp add: quiet_def agree_def)
      with w0 Start Closing f g show ?thesis by (auto simp: wk_inv_def)
    qed
  next
    case Stop
    then have c': "control (workers s' w) = Stop" using ag by (simp add: agree_def)
    show ?thesis
    proof (cases "state (workers s w) = Opened \<or> state (workers s w) = Draining")
      case True
      then have "state (workers t w) = Draining \<or> state (workers t w) = Closing"
        using q c' ag by (auto simp: quiet_def agree_def)
      with w0 Stop True f g show ?thesis by (auto simp: wk_inv_def)
    next
      case False
      then have "state (workers t w) = state (workers s w)"
        using q c' ag by (cases "state (workers s w)") (auto simp: quiet_def agree_def)
      with w0 Stop False f g show ?thesis by (auto simp: wk_inv_def)
    qed
  qed
  from other self have "\<forall>u. wk_inv c t u" by (metis)
  with inv g show ?thesis by (simp add: pull_inv_def)
qed

lemma fdHeadroom_frame [simp]:
  "fdHeadroom (upd w f s) = fdHeadroom s"
  "fdHeadroom (issue r s) = fdHeadroom s"
  "fdHeadroom (s\<lparr>stoppableQueue := q\<rparr>) = fdHeadroom s"
  "fdHeadroom (s\<lparr>scheduleQueue := q'\<rparr>) = fdHeadroom s"
  by (simp_all add: fdHeadroom_def)

lemma pull_inv_sched:
  "pull_inv c s \<Longrightarrow> \<forall>w \<in> set q. w < length (created s) \<Longrightarrow>
   pull_inv c (s\<lparr>scheduleQueue := q\<rparr>)"
  by (simp add: pull_inv_def wk_inv_def fdHeadroom_def)

lemma pull_inv_not_member:
  "pull_inv c s \<Longrightarrow> control (workers s w) = Stop \<Longrightarrow> w \<notin> set (stoppableQueue s)"
  by (auto simp: pull_inv_def wk_inv_def)

lemma pull_inv_no_startCb:
  assumes inv: "pull_inv c s" and x: "control (workers s X) = Stop"
    and go: "fdHeadroom s \<or> stoppableQueue s \<noteq> []"
  shows "startCb (workers s X) = None"
proof (rule ccontr)
  assume n: "startCb (workers s X) \<noteq> None"
  from inv have w: "wk_inv c s X" by (simp add: pull_inv_def)
  from pull_inv_not_member[OF inv x] have m: "X \<notin> set (stoppableQueue s)" .
  from w n x go have "stoppableQueue s \<noteq> [] \<and> last (stoppableQueue s) = X"
    by (auto simp: wk_inv_def)
  with m show False using last_in_set by blast
qed

lemma pull_inv_start_null:
  assumes inv: "pull_inv c s" and x: "control (workers s X) = Stop"
    and go: "fdHeadroom s \<or> stoppableQueue s \<noteq> []"
  shows "pull_inv c (upd X (\<lambda>p. p\<lparr>control := Start\<rparr>) s)"
proof -
  let ?t = "upd X (\<lambda>p. p\<lparr>control := Start\<rparr>) s"
  have n: "startCb (workers s X) = None" by (rule pull_inv_no_startCb[OF inv x go])
  have m: "X \<notin> set (stoppableQueue s)" by (rule pull_inv_not_member[OF inv x])
  have "wk_inv c ?t u" for u
  proof (cases "u = X")
    case True
    from inv have "wk_inv c s X" by (simp add: pull_inv_def)
    with True n m show ?thesis by (simp add: wk_inv_def)
  next
    case False
    then have "wk_inv c ?t u = wk_inv c s u"
      by (intro wk_inv_other) (simp_all add: fdHeadroom_def)
    with inv show ?thesis by (simp add: pull_inv_def)
  qed
  with inv show ?thesis by (simp add: pull_inv_def)
qed

lemma pull_inv_start_cb:
  assumes inv: "pull_inv c s" and x: "control (workers s X) = Stop"
    "state (workers s X) = Closed" and hr: "fdHeadroom s" and al: "X < length (created s)"
    and q: "quiet X (upd X (\<lambda>p. p\<lparr>startCb := Some (StartedCb X)\<rparr>)
               (upd X (\<lambda>p. p\<lparr>control := Start\<rparr>)
                  (s\<lparr>numActivePathWorkers := numActivePathWorkers s + 1\<rparr>))) t"
  shows "pull_inv c t"
proof -
  have g: "stoppableQueue t = stoppableQueue s" "created t = created s"
    "scheduleQueue t = scheduleQueue s"
    using q by (simp_all add: quiet_def same_sched_def)
  have m: "X \<notin> set (stoppableQueue s)" by (rule pull_inv_not_member[OF inv x(1)])
  have "wk_inv c t u" for u
  proof (cases "u = X")
    case True
    from inv have w: "wk_inv c s X" by (simp add: pull_inv_def)
    have "control (workers t X) = Start" "state (workers t X) = Opening"
      "startCb (workers t X) = Some (StartedCb X)"
      "stopCb (workers t X) = stopCb (workers s X)"
      using q x by (simp_all add: quiet_def)
    with w True m g x al show ?thesis by (auto simp: wk_inv_def)
  next
    case False
    then have e: "workers t u = workers s u" using q by (simp add: quiet_def)
    from inv have "wk_inv c s u" by (simp add: pull_inv_def)
    with e g hr show ?thesis by (auto simp: wk_inv_def)
  qed
  with inv g show ?thesis by (simp add: pull_inv_def)
qed

lemma last_Cons_other: "last (V # vs) = u \<Longrightarrow> u \<noteq> V \<Longrightarrow> vs \<noteq> [] \<and> last vs = u"
  by (cases vs) simp_all

lemma last_Cons_self:
  assumes "last (V # vs) = V" "V \<notin> set vs" shows "vs = []"
proof (rule ccontr)
  assume n: "vs \<noteq> []"
  with assms(1) have "last vs = V" by simp
  with n have "V \<in> set vs" using last_in_set[of vs] by simp
  with assms(2) show False by simp
qed

lemma pull_inv_stop:
  assumes inv: "pull_inv c s" and sq: "stoppableQueue s = V # vs" and nh: "\<not> fdHeadroom s"
  shows "pull_inv c (upd V (\<lambda>p. p\<lparr>stopCb := Some StoppedCb\<rparr>)
           (upd V (\<lambda>p. p\<lparr>control := Stop\<rparr>) (s\<lparr>stoppableQueue := vs\<rparr>)))"
    (is "pull_inv c ?t")
proof -
  from inv sq have d: "V \<notin> set vs" "distinct vs" by (simp_all add: pull_inv_def)
  have "wk_inv c ?t u" for u
  proof (cases "u = V")
    case True
    from inv have w: "wk_inv c s V" by (simp add: pull_inv_def)
    from w sq have o: "state (workers s V) = Opened" "control (workers s V) = Start"
      by (simp_all add: wk_inv_def)
    have 4: "startCb (workers s V) = Some (StartedCb V) \<and> V < length (created s) \<and>
             c = Starting V \<and> vs = []"
      if n: "startCb (workers s V) \<noteq> None"
    proof -
      from w n o have a: "startCb (workers s V) = Some (StartedCb V)"
        "V < length (created s)" "c = Starting V"
        "stoppableQueue s \<noteq> [] \<and> last (stoppableQueue s) = V"
        unfolding wk_inv_def by auto
      from a(4) sq have "last (V # vs) = V" by simp
      from last_Cons_self[OF this d(1)] a show ?thesis by simp
    qed
    show ?thesis
    proof (cases "startCb (workers s V) = None")
      case n: True
      show ?thesis
        unfolding True wk_inv_def using n o d(1) by simp
    next
      case False
      from 4[OF False] have "startCb (workers s V) = Some (StartedCb V)"
        "V < length (created s)" "c = Starting V" "vs = []" by simp_all
      then show ?thesis
        unfolding True wk_inv_def using o nh by simp
    qed
  next
    case False
    from inv have w: "wk_inv c s u" by (simp add: pull_inv_def)
    have m: "u \<in> set vs \<longleftrightarrow> u \<in> set (stoppableQueue s)" using False sq by simp
    have l: "vs \<noteq> [] \<and> last vs = u"
      if "stoppableQueue s \<noteq> [] \<and> last (stoppableQueue s) = u"
    proof -
      from that have "last (stoppableQueue s) = u" ..
      then have "last (V # vs) = u" unfolding sq .
      then show ?thesis using False by (rule last_Cons_other)
    qed
    have e: "workers ?t u = workers s u" "created ?t = created s"
      "stoppableQueue ?t = vs" "fdHeadroom ?t = fdHeadroom s"
      using False by simp_all
    have ne: "stoppableQueue s \<noteq> []" using sq by simp
    from w have c1: "u \<in> set (stoppableQueue s) \<longrightarrow>
         state (workers s u) = Opened \<and> control (workers s u) = Start \<and>
         ops (workers s u) = [] \<and> stopCb (workers s u) = None"
      and c2: "state (workers s u) = Opening \<longrightarrow> control (workers s u) = Start"
      and c3: "control (workers s u) = Stop \<and> state (workers s u) = Closed \<and>
         stopCb (workers s u) \<noteq> None \<longrightarrow> c = Stopping u"
      and c4: "startCb (workers s u) \<noteq> None \<longrightarrow>
         startCb (workers s u) = Some (StartedCb u) \<and> u < length (created s) \<and>
         (control (workers s u) = Start \<and> state (workers s u) = Opening \<and>
            (stopCb (workers s u) = None \<or> c = Stopping u) \<or>
          c = Starting u \<and>
            (stoppableQueue s \<noteq> [] \<and> last (stoppableQueue s) = u \<or>
             control (workers s u) = Stop \<and> stoppableQueue s = [] \<and> \<not> fdHeadroom s))"
      unfolding wk_inv_def by blast+
    from c4 ne l have c4': "startCb (workers s u) \<noteq> None \<longrightarrow>
         startCb (workers s u) = Some (StartedCb u) \<and> u < length (created s) \<and>
         (control (workers s u) = Start \<and> state (workers s u) = Opening \<and>
            (stopCb (workers s u) = None \<or> c = Stopping u) \<or>
          c = Starting u \<and>
            (vs \<noteq> [] \<and> last vs = u \<or>
             control (workers s u) = Stop \<and> vs = [] \<and> \<not> fdHeadroom s))"
      by blast
    show ?thesis
      unfolding wk_inv_def e m
      by (intro conjI c1 c2 c3 c4')
  qed
  with inv sq d show ?thesis by (simp add: pull_inv_def)
qed

lemma pull_step_inv:
  assumes inv: "pull_inv c s" and nr: "\<not> pull_returns s"
    and tq: "\<And>v u t. \<not> due v u \<Longrightarrow> tick' v u = Done t \<Longrightarrow> quiet v u t"
    and d: "pull_step tick' s = Done t"
  shows "pull_inv c t"
proof -
  from nr obtain X xs where q: "scheduleQueue s = X # xs"
    by (cases "scheduleQueue s") (auto simp: pull_returns_def)
  from nr have go: "fdHeadroom s \<or> stoppableQueue s \<noteq> []" by (auto simp: pull_returns_def)
  let ?s1 = "s\<lparr>scheduleQueue := xs\<rparr>"
  from inv q have al: "X < length (created s)" "\<forall>w \<in> set xs. w < length (created s)"
    by (simp_all add: pull_inv_def)
  have i1: "pull_inv c ?s1" by (rule pull_inv_sched[OF inv al(2)])
  have go1: "fdHeadroom ?s1 \<or> stoppableQueue ?s1 \<noteq> []" using go by (simp add: fdHeadroom_def)
  show ?thesis
  proof (cases "control (workers s X) = Start")
    case True
    with d q i1 show ?thesis by (simp add: pull_step_def)
  next
    case False
    then have st: "control (workers ?s1 X) = Stop" by (cases "control (workers s X)") simp_all
    show ?thesis
    proof (cases "state (workers s X) \<noteq> Closed")
      case True
      let ?u = "upd X (\<lambda>p. p\<lparr>control := Start\<rparr>) ?s1"
      from d q False True have 1: "tick' X ?u = Done t"
        by (simp add: pull_step_def start_def)
      have n: "startCb (workers ?s1 X) = None" by (rule pull_inv_no_startCb[OF i1 st go1])
      have i2: "pull_inv c ?u" by (rule pull_inv_start_null[OF i1 st go1])
      have nd: "\<not> due X ?u" using n by (simp add: due_def)
      from quiet_preserves[OF i2 agree_refl nd tq[OF nd 1]] show ?thesis .
    next
      case cl: False
      show ?thesis
      proof (cases "fdHeadroom s")
        case True
        let ?u = "upd X (\<lambda>p. p\<lparr>startCb := Some (StartedCb X)\<rparr>)
            (upd X (\<lambda>p. p\<lparr>control := Start\<rparr>)
              (?s1\<lparr>numActivePathWorkers := numActivePathWorkers ?s1 + 1\<rparr>))"
        from d q False cl True have 1: "tick' X ?u = Done t"
          by (simp add: pull_step_def start_def Let_def split: if_splits)
        have nd: "\<not> due X ?u" using cl by (simp add: due_def)
        have "pull_inv c t"
          by (rule pull_inv_start_cb[OF i1 st _ _ _ tq[OF nd 1]])
             (use cl True al in \<open>simp_all add: fdHeadroom_def\<close>)
        then show ?thesis .
      next
        case nh: False
        with go obtain V vs where sq: "stoppableQueue s = V # vs"
          by (cases "stoppableQueue s") auto
        let ?u = "upd V (\<lambda>p. p\<lparr>stopCb := Some StoppedCb\<rparr>)
                 (upd V (\<lambda>p. p\<lparr>control := Stop\<rparr>) (?s1\<lparr>stoppableQueue := vs\<rparr>))"
        from d q False cl nh sq obtain s3 where
          s3: "tick' V ?u = Done s3"
          and tt: "t = s3\<lparr>scheduleQueue := X # scheduleQueue s3\<rparr>"
          by (auto simp: pull_step_def stop_def Let_def and_then_eq_Done split: if_splits)
        have i2: "pull_inv c ?u"
          by (rule pull_inv_stop[OF i1]) (use sq nh in \<open>simp_all add: fdHeadroom_def\<close>)
        from i1 sq have "state (workers s V) = Opened"
          by (simp add: pull_inv_def wk_inv_def)
        then have nd: "\<not> due V ?u" by (simp add: due_def)
        have i3: "pull_inv c s3" by (rule quiet_preserves[OF i2 agree_refl nd tq[OF nd s3]])
        have "scheduleQueue s3 = xs" "created s3 = created s"
          using tq[OF nd s3] by (simp_all add: quiet_def same_sched_def)
        with al have "\<forall>w \<in> set (X # scheduleQueue s3). w < length (created s3)" by simp
        from pull_inv_sched[OF i3 this] tt show ?thesis by simp
      qed
    qed
  qed
qed

lemma pull_inv_preserved: "pull_inv c s \<Longrightarrow> pull n s = Done t \<Longrightarrow> pull_inv c t"
proof (induction n arbitrary: s t)
  case 0
  then show ?case by simp
next
  case (Suc n)
  show ?case
  proof (cases "pull_returns s")
    case True
    with Suc.prems show ?thesis by simp
  next
    case False
    with Suc.prems(2) obtain s1 where 1: "pull_step (\<lambda>v t. tick n v t) s = Done s1"
      and 2: "pull n s1 = Done t"
      by (auto simp: and_then_eq_Done)
    have "pull_inv c s1"
      by (rule pull_step_inv[OF Suc.prems(1) False _ 1]) (rule tick_quiet)
    from Suc.IH[OF this 2] show ?thesis .
  qed
qed

lemma pull_inv_cong:
  assumes "stoppableQueue t = stoppableQueue s" "scheduleQueue t = scheduleQueue s"
    "created t = created s" "fdHeadroom t = fdHeadroom s"
    "\<forall>w. control (workers t w) = control (workers s w) \<and>
         state (workers t w) = state (workers s w) \<and>
         ops (workers t w) = ops (workers s w) \<and>
         startCb (workers t w) = startCb (workers s w) \<and>
         stopCb (workers t w) = stopCb (workers s w)"
  shows "pull_inv c t = pull_inv c s"
  using assms by (simp add: pull_inv_def wk_inv_def)

lemma Quiet_not_due:
  assumes "pull_inv Quiet s" shows "\<not> due w s"
proof -
  from assms have "wk_inv Quiet s w" by (simp add: pull_inv_def)
  then show ?thesis unfolding wk_inv_def due_def by auto
qed

lemma agree_due: "agree w s s' \<Longrightarrow> due w s' = due w s"
  by (simp add: agree_def due_def)

lemma tick_Quiet:
  assumes inv: "pull_inv Quiet s" and ag: "agree w s s'" and d: "tick n w s' = Done t"
  shows "pull_inv Quiet t"
proof -
  have nd: "\<not> due w s'" using Quiet_not_due[OF inv, of w] agree_due[OF ag] by simp
  from quiet_preserves[OF inv ag nd tick_quiet[OF nd d]] show ?thesis .
qed

lemma pull_inv_weaken: "pull_inv Quiet s \<Longrightarrow> pull_inv c s"
proof -
  assume inv: "pull_inv Quiet s"
  have "wk_inv c s w" for w
  proof -
    from inv have w: "wk_inv Quiet s w" by (simp add: pull_inv_def)
    then have c1: "w \<in> set (stoppableQueue s) \<longrightarrow>
         state (workers s w) = Opened \<and> control (workers s w) = Start \<and>
         ops (workers s w) = [] \<and> stopCb (workers s w) = None"
      and c2: "state (workers s w) = Opening \<longrightarrow> control (workers s w) = Start"
      and c3: "\<not> (control (workers s w) = Stop \<and> state (workers s w) = Closed \<and>
         stopCb (workers s w) \<noteq> None)"
      and c4: "startCb (workers s w) \<noteq> None \<longrightarrow>
         startCb (workers s w) = Some (StartedCb w) \<and> w < length (created s) \<and>
         control (workers s w) = Start \<and> state (workers s w) = Opening \<and>
         stopCb (workers s w) = None"
      unfolding wk_inv_def by auto
    show ?thesis unfolding wk_inv_def using c1 c2 c3 c4 by blast
  qed
  with inv show ?thesis by (simp add: pull_inv_def)
qed

lemma pull_inv_numActive:
  assumes "pull_inv c s" and "\<forall>w. c \<noteq> Starting w"
  shows "pull_inv c (s\<lparr>numActivePathWorkers := k\<rparr>)"
  using assms by (simp add: pull_inv_def wk_inv_def)

lemma wk_inv_Quiet:
  "wk_inv Quiet s w \<longleftrightarrow>
     (w \<in> set (stoppableQueue s) \<longrightarrow>
         state (workers s w) = Opened \<and> control (workers s w) = Start \<and>
         ops (workers s w) = [] \<and> stopCb (workers s w) = None) \<and>
     (state (workers s w) = Opening \<longrightarrow> control (workers s w) = Start) \<and>
     \<not> (control (workers s w) = Stop \<and> state (workers s w) = Closed \<and>
         stopCb (workers s w) \<noteq> None) \<and>
     (startCb (workers s w) \<noteq> None \<longrightarrow>
         startCb (workers s w) = Some (StartedCb w) \<and> w < length (created s) \<and>
         control (workers s w) = Start \<and> state (workers s w) = Opening \<and>
         stopCb (workers s w) = None)"
  unfolding wk_inv_def by (simp only: ctx.distinct simp_thms)

lemma wk_inv_Stopping:
  "wk_inv (Stopping x) s w \<longleftrightarrow>
     (w \<in> set (stoppableQueue s) \<longrightarrow>
         state (workers s w) = Opened \<and> control (workers s w) = Start \<and>
         ops (workers s w) = [] \<and> stopCb (workers s w) = None) \<and>
     (state (workers s w) = Opening \<longrightarrow> control (workers s w) = Start) \<and>
     (control (workers s w) = Stop \<and> state (workers s w) = Closed \<and>
         stopCb (workers s w) \<noteq> None \<longrightarrow> x = w) \<and>
     (startCb (workers s w) \<noteq> None \<longrightarrow>
         startCb (workers s w) = Some (StartedCb w) \<and> w < length (created s) \<and>
         control (workers s w) = Start \<and> state (workers s w) = Opening \<and>
         (stopCb (workers s w) = None \<or> x = w))"
  unfolding wk_inv_def by (simp only: ctx.distinct ctx.inject simp_thms)

lemma clear_stopCb:
  assumes inv: "pull_inv (Stopping w) s"
  shows "pull_inv Quiet (upd w (\<lambda>p. p\<lparr>stopCb := None\<rparr>) s)" (is "pull_inv Quiet ?t")
proof -
  have "wk_inv Quiet ?t u" for u
  proof -
    from inv have "wk_inv (Stopping w) s u" by (simp add: pull_inv_def)
    then have c1: "u \<in> set (stoppableQueue s) \<longrightarrow>
         state (workers s u) = Opened \<and> control (workers s u) = Start \<and>
         ops (workers s u) = [] \<and> stopCb (workers s u) = None"
      and c2: "state (workers s u) = Opening \<longrightarrow> control (workers s u) = Start"
      and c3: "control (workers s u) = Stop \<and> state (workers s u) = Closed \<and>
         stopCb (workers s u) \<noteq> None \<longrightarrow> w = u"
      and c4: "startCb (workers s u) \<noteq> None \<longrightarrow>
         startCb (workers s u) = Some (StartedCb u) \<and> u < length (created s) \<and>
         control (workers s u) = Start \<and> state (workers s u) = Opening \<and>
         (stopCb (workers s u) = None \<or> w = u)"
      unfolding wk_inv_Stopping by blast+
    have e: "state (workers ?t u) = state (workers s u)"
      "control (workers ?t u) = control (workers s u)"
      "ops (workers ?t u) = ops (workers s u)"
      "startCb (workers ?t u) = startCb (workers s u)"
      "stoppableQueue ?t = stoppableQueue s" "created ?t = created s"
      by simp_all
    show ?thesis
    proof (cases "u = w")
      case True
      have n: "stopCb (workers ?t u) = None" using True by simp
      show ?thesis unfolding wk_inv_Quiet e n using c1 c2 c4 by blast
    next
      case False
      then have n: "stopCb (workers ?t u) = stopCb (workers s u)" by simp
      show ?thesis unfolding wk_inv_Quiet e n using c1 c2 c3 c4 False by blast
    qed
  qed
  with inv show ?thesis by (simp add: pull_inv_def)
qed

lemma clear_startCb:
  assumes inv: "pull_inv (Starting w) s"
  shows "pull_inv Quiet (upd w (\<lambda>p. p\<lparr>startCb := None\<rparr>) s)" (is "pull_inv Quiet ?t")
proof -
  have "wk_inv Quiet ?t u" for u
  proof -
    from inv have "wk_inv (Starting w) s u" by (simp add: pull_inv_def)
    then have c1: "u \<in> set (stoppableQueue s) \<longrightarrow>
         state (workers s u) = Opened \<and> control (workers s u) = Start \<and>
         ops (workers s u) = [] \<and> stopCb (workers s u) = None"
      and c2: "state (workers s u) = Opening \<longrightarrow> control (workers s u) = Start"
      and c3: "control (workers s u) = Stop \<and> state (workers s u) = Closed \<and>
         stopCb (workers s u) \<noteq> None \<longrightarrow> Quiet = Stopping u"
      and c4: "startCb (workers s u) \<noteq> None \<longrightarrow> u \<noteq> w \<longrightarrow>
         startCb (workers s u) = Some (StartedCb u) \<and> u < length (created s) \<and>
         control (workers s u) = Start \<and> state (workers s u) = Opening \<and>
         stopCb (workers s u) = None"
      unfolding wk_inv_def by auto
    have e: "state (workers ?t u) = state (workers s u)"
      "control (workers ?t u) = control (workers s u)"
      "ops (workers ?t u) = ops (workers s u)"
      "stopCb (workers ?t u) = stopCb (workers s u)"
      "startCb (workers ?t u) = (if u = w then None else startCb (workers s u))"
      "stoppableQueue ?t = stoppableQueue s" "created ?t = created s"
      by simp_all
    have d4: "(if u = w then None else startCb (workers s u)) \<noteq> None \<longrightarrow>
         (if u = w then None else startCb (workers s u)) = Some (StartedCb u) \<and>
         u < length (created s) \<and>
         (control (workers s u) = Start \<and> state (workers s u) = Opening \<and>
            (stopCb (workers s u) = None \<or> Quiet = Stopping u) \<or>
          Quiet = Starting u \<and>
            (stoppableQueue s \<noteq> [] \<and> last (stoppableQueue s) = u \<or>
             control (workers s u) = Stop \<and> stoppableQueue s = [] \<and> \<not> fdHeadroom ?t))"
      using c4 by auto
    show ?thesis unfolding wk_inv_def e by (intro conjI c1 c2 c3 d4)
  qed
  with inv show ?thesis by (simp add: pull_inv_def)
qed

lemma allocated_stable: "stable True allocated"
  unfolding stable_def
proof (intro allI impI conjI)
  fix s :: sys and w
  assume 1: "allocated s"
  show "sat True allocated (execIfOps w s)"
    unfolding execIfOps_def
    by (rule sat_weaken[OF execLoop_sched]) (use 1 in \<open>simp add: allocated_def\<close>)
qed (simp_all add: allocated_def)

lemma tick_allocated:
  assumes "allocated s" "tick n w s = Done t" shows "allocated t"
proof -
  from tick_pull_stable[OF allocated_stable, of n] assms(1)
  have "sat True allocated (tick n w s)" by blast
  with assms(2) show ?thesis by simp
qed

lemma pull_allocated:
  assumes "allocated s" "pull n s = Done t" shows "allocated t"
proof -
  from tick_pull_stable[OF allocated_stable, of n] assms(1)
  have "sat True allocated (pull n s)" by blast
  with assms(2) show ?thesis by simp
qed

end
